theory Spec2Isabelle
  imports Complex_Main "HOL-Library.Sublist" "HOL-Library.Char_ord" "HOL-Library.List_Lexorder"
    "HOL-Library.Product_Lexorder"
    "HOL-Library.Multiset"
begin

section \<open>Data model (types.ts)\<close>

text \<open>
  An optional field \<open>f?: T\<close> is a \<open>T option\<close>, \<open>None\<close> standing for \<open>undefined\<close>.

  Numbers are the rationals that the finite JavaScript numbers denote. Comparing two
  numbers and taking an absolute value are exact in floating point, and so they are in
  the model. The sums of the statistics are taken exactly, their rounding being
  outside the model. In the credit-note branch a rounded difference decides which way
  the code goes, so there the subtraction and the literal \<open>0.01\<close> are the host's.

  A size code is free text that the statistics read character by character: it is a list
  of UTF-16 code units. The other strings are only compared, ordered, concatenated and
  tested for a prefix: they are lists of characters.
\<close>

type_synonym number = rat

type_synonym ustring = "nat list"

datatype EntryType = INVOICE | PAYMENT | CN

datatype Status = PENDING | PAID | ADJUSTED

record InvoiceItem =
  id_item :: string
  size_item :: ustring
  pattern_item :: string
  quantity_item :: number
  unitPrice_item :: number

record LedgerEntry =
  id_entry :: string
  type_entry :: EntryType
  date :: string
  invoiceNo :: string
  size_entry :: "ustring option"
  pattern_entry :: "string option"
  quantity_entry :: "number option"
  unitPrice_entry :: "number option"
  invoiceAmount :: "number option"
  items :: "InvoiceItem list option"
  dueDate :: "string option"
  paymentAmount :: "number option"
  cnAmount :: "number option"
  status :: "Status option"
  originalRefId :: "string option"
  notes_entry :: "string option"

record Stats =
  totalInvoiced :: number
  totalPaid :: number
  totalCN :: number
  outstanding :: number
  qtyPcr :: number
  qtyNylon :: number
  qty2Wheeler :: number

section \<open>The host\<close>

text \<open>
  What the source calls and the repository does not define is a field of \<open>Host\<close>:
  \<^item> \<open>hostLocaleCompare opts a b\<close> is \<open>a.localeCompare(b, undefined, opts)\<close>;
  \<^item> \<open>hostToUpperCase\<close> is \<open>String.prototype.toUpperCase\<close> on a string with a code unit
    beyond U+00FF (up to there the model spells the mapping out);
  \<^item> \<open>hostGetTime s\<close> is \<open>new Date(s).getTime()\<close>, \<open>None\<close> standing for \<open>NaN\<close>;
  \<^item> \<open>hostSort\<close> is the order \<open>Array.prototype.sort\<close> leaves the pending invoices in
    when a date is invalid and the comparator is not consistent: that order is
    implementation-defined;
  \<^item> \<open>hostFormatINR\<close> is \<open>Intl.NumberFormat('en-IN', {style: 'currency', ...}).format\<close>;
  \<^item> \<open>hostMinus\<close> is the floating-point subtraction and \<open>hostCent\<close> the number that the
    literal \<open>0.01\<close> denotes.
\<close>

datatype Sensitivity = Base | Accent | CaseLevel | Variant

record CollatorOptions =
  numeric :: bool
  sensitivity :: Sensitivity

record Host =
  hostLocaleCompare :: "CollatorOptions \<Rightarrow> string \<Rightarrow> string \<Rightarrow> int"
  hostToUpperCase :: "ustring \<Rightarrow> ustring"
  hostGetTime :: "string \<Rightarrow> int option"
  hostSort :: "LedgerEntry list \<Rightarrow> LedgerEntry list"
  hostFormatINR :: "number \<Rightarrow> string"
  hostMinus :: "number \<Rightarrow> number \<Rightarrow> number"
  hostCent :: number

section \<open>JavaScript idioms used by the source\<close>

text \<open>A string literal of the source, all ASCII, as code units.\<close>

definition codeUnits :: "string \<Rightarrow> ustring" where
  "codeUnits s = map of_char s"

text \<open>\<open>x || 0\<close> on an optional number: \<open>undefined\<close> and \<open>0\<close> both give \<open>0\<close>.\<close>

definition orZero :: "number option \<Rightarrow> number" where
  "orZero x = (case x of None \<Rightarrow> 0 | Some v \<Rightarrow> v)"

text \<open>\<open>s || ''\<close> on an optional string.\<close>

definition orEmpty :: "'a list option \<Rightarrow> 'a list" where
  "orEmpty s = (case s of None \<Rightarrow> [] | Some v \<Rightarrow> v)"

text \<open>\<open>!s\<close> on an optional string: true for \<open>undefined\<close> and for the empty string.\<close>

definition falsy :: "'a list option \<Rightarrow> bool" where
  "falsy s = (case s of None \<Rightarrow> True | Some v \<Rightarrow> v = [])"

text \<open>
  \<open>String.prototype.toUpperCase\<close>. On U+0000 to U+00FF the Unicode mapping is: the
  letters \<open>a\<close> to \<open>z\<close> and U+00E0 to U+00FE without the division sign go 32 down, the
  micro sign becomes U+039C, the sharp s becomes \<open>SS\<close>, U+00FF becomes U+0178, and every
  other character stays. A string with a code unit beyond U+00FF is mapped by the host.
\<close>

definition upperLatin1 :: "nat \<Rightarrow> ustring" where
  "upperLatin1 u =
     (if (97 \<le> u \<and> u \<le> 122) \<or> (224 \<le> u \<and> u \<le> 254 \<and> u \<noteq> 247) then [u - 32]
      else if u = 181 then [924]
      else if u = 223 then [83, 83]
      else if u = 255 then [376]
      else [u])"

definition toUpperCase :: "Host \<Rightarrow> ustring \<Rightarrow> ustring" where
  "toUpperCase h s =
     (if list_all (\<lambda>u. u < 256) s then concat (map upperLatin1 s) else hostToUpperCase h s)"

text \<open>
  \<open>String.prototype.trim\<close> removes white space and line terminators at both ends: tab,
  line feed, vertical tab, form feed, carriage return, space, U+00A0, U+1680, U+2000 to
  U+200A, U+2028, U+2029, U+202F, U+205F, U+3000 and U+FEFF.
\<close>

definition isWhiteSpace :: "nat \<Rightarrow> bool" where
  "isWhiteSpace u =
     (u \<in> {9, 10, 11, 12, 13, 32, 160, 5760, 8232, 8233, 8239, 8287, 12288, 65279}
      \<or> (8192 \<le> u \<and> u \<le> 8202))"

definition trim :: "ustring \<Rightarrow> ustring" where
  "trim s = rev (dropWhile isWhiteSpace (rev (dropWhile isWhiteSpace s)))"

text \<open>\<open>s.includes(c)\<close> for a one-character literal \<open>c\<close>.\<close>

definition includesChar :: "ustring \<Rightarrow> char \<Rightarrow> bool" where
  "includesChar s c = (of_char c \<in> set s)"

text \<open>The regular expression \<open>/[A-Z]/\<close>.\<close>

definition isAZ :: "nat \<Rightarrow> bool" where
  "isAZ u = (of_char (CHR ''A'') \<le> u \<and> u \<le> of_char (CHR ''Z''))"

definition testAZ :: "ustring \<Rightarrow> bool" where
  "testAZ s = list_ex isAZ s"

text \<open>
  \<open>Array.prototype.sort\<close> with a comparator. The sort is stable, so for a consistent
  comparator its result is the one a stable insertion sort computes: an element goes in
  front of the first element it does not compare greater than.
\<close>

fun insertBy :: "('a \<Rightarrow> 'a \<Rightarrow> int) \<Rightarrow> 'a \<Rightarrow> 'a list \<Rightarrow> 'a list" where
  "insertBy cmp x [] = [x]"
| "insertBy cmp x (y # ys) = (if cmp x y \<le> 0 then x # y # ys else y # insertBy cmp x ys)"

definition sortBy :: "('a \<Rightarrow> 'a \<Rightarrow> int) \<Rightarrow> 'a list \<Rightarrow> 'a list" where
  "sortBy cmp xs = foldr (insertBy cmp) xs []"

text \<open>\<open>Array.prototype.findIndex\<close>; \<open>None\<close> stands for \<open>-1\<close>.\<close>

fun findIndex :: "('a \<Rightarrow> bool) \<Rightarrow> 'a list \<Rightarrow> nat option" where
  "findIndex P [] = None"
| "findIndex P (x # xs) =
     (if P x then Some 0 else (case findIndex P xs of None \<Rightarrow> None | Some i \<Rightarrow> Some (Suc i)))"

section \<open>Ordering and filtering (filteredEntries)\<close>

text \<open>
  The comparator of the visible entries: the dates as strings, then
  \<open>invA.localeCompare(invB, undefined, {numeric: true, sensitivity: 'base'})\<close>.
\<close>

definition compareEntries :: "Host \<Rightarrow> LedgerEntry \<Rightarrow> LedgerEntry \<Rightarrow> int" where
  "compareEntries h a b =
     (if date a \<noteq> date b then (if date a < date b then - 1 else 1)
      else hostLocaleCompare h \<lparr>numeric = True, sensitivity = Base\<rparr>
             (invoiceNo a) (invoiceNo b))"

definition filteredEntries :: "Host \<Rightarrow> string \<Rightarrow> LedgerEntry list \<Rightarrow> LedgerEntry list" where
  "filteredEntries h filterDate entries =
     (let data = (if filterDate \<noteq> [] then filter (\<lambda>e. prefix filterDate (date e)) entries
                  else entries)
      in sortBy (compareEntries h) data)"

section \<open>Statistics (stats)\<close>

text \<open>
  The six counters of the first pass are carried in a \<open>Stats\<close> value whose
  \<open>outstanding\<close> field is filled in at the end; each \<open>forEach\<close> is a left-to-right fold.
\<close>

text \<open>
  The callback of \<open>itemsToProcess.forEach\<close>. On the typed fields \<open>item.size || ''\<close> and
  \<open>item.quantity || 0\<close> are the fields themselves.
\<close>

definition processItem :: "Host \<Rightarrow> InvoiceItem \<Rightarrow> Stats \<Rightarrow> Stats" where
  "processItem h item acc =
     (let sz = trim (toUpperCase h (size_item item)); qty = quantity_item item
      in if sz \<noteq> [] then
           (if includesChar sz CHR ''R'' then acc\<lparr>qtyPcr := qtyPcr acc + qty\<rparr>
            else if includesChar sz CHR ''D'' then acc\<lparr>qtyNylon := qtyNylon acc + qty\<rparr>
            else if \<not> testAZ sz then acc\<lparr>qty2Wheeler := qty2Wheeler acc + qty\<rparr>
            else acc)
         else acc)"

text \<open>
  The line items of an invoice: its \<open>items\<close> when there are any, else one item made of
  the four scalar fields. The object the source makes has no \<open>id\<close>; the model gives it
  the empty one, which nothing reads.
\<close>

definition itemsToProcess :: "LedgerEntry \<Rightarrow> InvoiceItem list" where
  "itemsToProcess e =
     (case items e of
        Some (i # is) \<Rightarrow> i # is
      | _ \<Rightarrow> [\<lparr>id_item = [], size_item = orEmpty (size_entry e),
               pattern_item = orEmpty (pattern_entry e),
               quantity_item = orZero (quantity_entry e),
               unitPrice_item = orZero (unitPrice_entry e)\<rparr>])"

definition scopedStep :: "Host \<Rightarrow> LedgerEntry \<Rightarrow> Stats \<Rightarrow> Stats" where
  "scopedStep h e acc =
     (case type_entry e of
        INVOICE \<Rightarrow>
          (if falsy (originalRefId e)
           then fold (processItem h) (itemsToProcess e)
                  (acc\<lparr>totalInvoiced := totalInvoiced acc + orZero (invoiceAmount e)\<rparr>)
           else acc)
      | PAYMENT \<Rightarrow> acc\<lparr>totalPaid := totalPaid acc + orZero (paymentAmount e)\<rparr>
      | CN \<Rightarrow> acc\<lparr>totalCN := totalCN acc + orZero (cnAmount e)\<rparr>)"

text \<open>The second pass: \<open>(globalInvoiced, globalPaid, globalCN)\<close>.\<close>

definition globalStep :: "LedgerEntry \<Rightarrow> number \<times> number \<times> number \<Rightarrow> number \<times> number \<times> number" where
  "globalStep e g =
     (case g of (globalInvoiced, globalPaid, globalCN) \<Rightarrow>
       (case type_entry e of
          INVOICE \<Rightarrow>
            (if falsy (originalRefId e)
             then (globalInvoiced + orZero (invoiceAmount e), globalPaid, globalCN)
             else g)
        | PAYMENT \<Rightarrow> (globalInvoiced, globalPaid + orZero (paymentAmount e), globalCN)
        | CN \<Rightarrow> (globalInvoiced, globalPaid, globalCN + orZero (cnAmount e))))"

definition zeroStats :: Stats where
  "zeroStats = \<lparr>totalInvoiced = 0, totalPaid = 0, totalCN = 0, outstanding = 0,
                qtyPcr = 0, qtyNylon = 0, qty2Wheeler = 0\<rparr>"

definition computeStats :: "Host \<Rightarrow> LedgerEntry list \<Rightarrow> LedgerEntry list \<Rightarrow> Stats" where
  "computeStats h visible entries =
     (let acc = fold (scopedStep h) visible zeroStats;
          (globalInvoiced, globalPaid, globalCN) = fold globalStep entries (0, 0, 0)
      in acc\<lparr>outstanding := globalInvoiced - globalPaid - globalCN\<rparr>)"

definition stats :: "Host \<Rightarrow> string \<Rightarrow> LedgerEntry list \<Rightarrow> Stats" where
  "stats h filterDate entries = computeStats h (filteredEntries h filterDate entries) entries"

section \<open>Credit notes (handleSubmitTransaction)\<close>

text \<open>\<open>formatCurrency\<close> (utils.ts).\<close>

definition formatCurrency :: "Host \<Rightarrow> number option \<Rightarrow> string" where
  "formatCurrency h amount = (case amount of None \<Rightarrow> ''-'' | Some a \<Rightarrow> hostFormatINR h a)"

text \<open>
  The comparator of the pending invoices,
  \<open>new Date(a.date).getTime() - new Date(b.date).getTime()\<close>, of which \<open>sort\<close> reads the
  sign, and \<open>0\<close> where it is \<open>NaN\<close>.
\<close>

definition compareDates :: "Host \<Rightarrow> LedgerEntry \<Rightarrow> LedgerEntry \<Rightarrow> int" where
  "compareDates h a b =
     (case (hostGetTime h (date a), hostGetTime h (date b)) of
        (Some x, Some y) \<Rightarrow> x - y
      | _ \<Rightarrow> 0)"

definition isPending :: "LedgerEntry \<Rightarrow> bool" where
  "isPending entry = (type_entry entry = INVOICE \<and> status entry = Some PENDING)"

text \<open>
  The pending invoices in ascending order of date. When every one of them has a valid
  date the comparator is consistent and the stable sort has one result. When a date is
  invalid the comparator is not consistent, and the order is the host's.
\<close>

definition pendingInvoices :: "Host \<Rightarrow> LedgerEntry list \<Rightarrow> LedgerEntry list" where
  "pendingInvoices h updatedEntries =
     (let pending = filter isPending updatedEntries
      in if list_all (\<lambda>e. hostGetTime h (date e) \<noteq> None) pending
         then sortBy (compareDates h) pending
         else hostSort h pending)"

text \<open>The new entries the handler builds.\<close>

definition newPayment :: "string \<Rightarrow> string \<Rightarrow> number \<Rightarrow> string \<Rightarrow> LedgerEntry" where
  "newPayment newId transDate amountVal transNotes =
     \<lparr>id_entry = newId, type_entry = PAYMENT, date = transDate, invoiceNo = ''-'',
      size_entry = None, pattern_entry = None, quantity_entry = None, unitPrice_entry = None,
      invoiceAmount = None, items = None, dueDate = None,
      paymentAmount = Some amountVal, cnAmount = None, status = None, originalRefId = None,
      notes_entry = Some transNotes\<rparr>"

definition cnEntry :: "string \<Rightarrow> string \<Rightarrow> number \<Rightarrow> string \<Rightarrow> LedgerEntry" where
  "cnEntry newId transDate amountVal transNotes =
     \<lparr>id_entry = newId, type_entry = CN, date = transDate, invoiceNo = ''CN-ADJ'',
      size_entry = None, pattern_entry = None, quantity_entry = None, unitPrice_entry = None,
      invoiceAmount = None, items = None, dueDate = None,
      paymentAmount = None, cnAmount = Some amountVal, status = None, originalRefId = None,
      notes_entry = Some transNotes\<rparr>"

text \<open>The two in-place updates of \<open>updatedEntries[invIndex]\<close>.\<close>

definition settleByCN :: "LedgerEntry \<Rightarrow> LedgerEntry" where
  "settleByCN e = e\<lparr>status := Some PAID,
                    notes_entry := Some (orEmpty (notes_entry e) @ '' [Settled by CN]'')\<rparr>"

definition adjustByCN :: "Host \<Rightarrow> number \<Rightarrow> LedgerEntry \<Rightarrow> LedgerEntry" where
  "adjustByCN h amountVal e =
     e\<lparr>status := Some ADJUSTED,
       notes_entry := Some (orEmpty (notes_entry e) @ '' [Adj by CN '' @
                              formatCurrency h (Some amountVal) @ '']'')\<rparr>"

text \<open>
  The balance invoice spreads \<open>targetInvoice\<close> and overrides ten fields. The object
  \<open>targetInvoice\<close> may already carry the update of \<open>status\<close> and \<open>notes\<close> made through
  \<open>updatedEntries[invIndex]\<close>; both fields are overridden here, so the spread reads
  nothing that the update changed.
\<close>

definition balanceInvoice :: "string \<Rightarrow> number \<Rightarrow> LedgerEntry \<Rightarrow> LedgerEntry" where
  "balanceInvoice newId balanceAmount targetInvoice =
     targetInvoice\<lparr>id_entry := newId,
       invoiceNo := invoiceNo targetInvoice @ ''-BAL'',
       invoiceAmount := Some balanceAmount,
       quantity_entry := Some 1,
       unitPrice_entry := Some balanceAmount,
       size_entry := Some (codeUnits ''Balance Forward''),
       pattern_entry := Some ''-'',
       items := Some [],
       originalRefId := Some (id_entry targetInvoice),
       status := Some PENDING,
       notes_entry := Some (''Balance after CN adjustment on '' @ invoiceNo targetInvoice)\<rparr>"

text \<open>
  The credit-note branch of the handler. \<open>cnId\<close> and \<open>balId\<close> are the results of the
  two calls of \<open>generateId\<close>, in that order. The result is \<open>None\<close> where the handler
  would throw, writing through index \<open>-1\<close>. The test
  \<open>Math.abs(remainingCN - invAmount) < 0.01\<close> and the balance \<open>invAmount - remainingCN\<close>
  are in the host's arithmetic.
\<close>

definition applyCreditNote ::
  "Host \<Rightarrow> string \<Rightarrow> string \<Rightarrow> LedgerEntry list \<Rightarrow> number \<Rightarrow> string \<Rightarrow> string \<Rightarrow>
   LedgerEntry list option" where
  "applyCreditNote h cnId balId entries amountVal transDate transNotes =
     (let cn = cnEntry cnId transDate amountVal transNotes;
          remainingCN = amountVal;
          updatedEntries = entries
      in case pendingInvoices h updatedEntries of
           [] \<Rightarrow> Some (updatedEntries @ [cn])
         | targetInvoice # _ \<Rightarrow>
             if remainingCN > 0 then
               (case findIndex (\<lambda>e. id_entry e = id_entry targetInvoice) updatedEntries of
                  None \<Rightarrow> None
                | Some invIndex \<Rightarrow>
                    let invAmount = orZero (invoiceAmount targetInvoice)
                    in if \<bar>hostMinus h remainingCN invAmount\<bar> < hostCent h then
                         Some (updatedEntries[invIndex := settleByCN (updatedEntries ! invIndex)]
                               @ [cn])
                       else if remainingCN < invAmount then
                         Some (updatedEntries
                                 [invIndex := adjustByCN h amountVal (updatedEntries ! invIndex)]
                               @ [balanceInvoice balId (hostMinus h invAmount remainingCN)
                                    targetInvoice]
                               @ [cn])
                       else
                         Some (updatedEntries[invIndex := settleByCN (updatedEntries ! invIndex)]
                               @ [cn]))
             else Some (updatedEntries @ [cn]))"

text \<open>
  The whole handler: the edit branch, the payment branch and the credit-note branch.
  \<open>amountVal\<close> is \<open>Number(transAmount)\<close>.
\<close>

definition handleSubmitTransaction ::
  "Host \<Rightarrow> string \<Rightarrow> string \<Rightarrow> string option \<Rightarrow> EntryType \<Rightarrow> string \<Rightarrow> number \<Rightarrow> string \<Rightarrow>
   LedgerEntry list \<Rightarrow> LedgerEntry list option" where
  "handleSubmitTransaction h newId1 newId2 editingId transactionType transDate
       amountVal transNotes entries =
     (if \<not> falsy editingId then
        Some (map (\<lambda>entry.
                if Some (id_entry entry) = editingId
                then entry\<lparr>date := transDate,
                       paymentAmount := (if transactionType = PAYMENT then Some amountVal else None),
                       cnAmount := (if transactionType = CN then Some amountVal else None),
                       notes_entry := Some transNotes\<rparr>
                else entry) entries)
      else if transactionType = PAYMENT then
        Some (entries @ [newPayment newId1 transDate amountVal transNotes])
      else applyCreditNote h newId1 newId2 entries amountVal transDate transNotes)"

section \<open>Notions of the specification\<close>

text \<open>
  The three quantity buckets and the classification of a size code: the code is put in
  upper case and trimmed; \<open>R\<close> wins over \<open>D\<close>; a code that is not empty and has none of
  the letters \<open>A\<close> to \<open>Z\<close> is a two-wheeler size; everything else has no bucket.
\<close>

datatype Bucket = Pcr | Nylon | TwoWheeler

definition bucketOf :: "Host \<Rightarrow> ustring \<Rightarrow> Bucket option" where
  "bucketOf h code =
     (let s = trim (toUpperCase h code)
      in if includesChar s CHR ''R'' then Some Pcr
         else if includesChar s CHR ''D'' then Some Nylon
         else if s \<noteq> [] \<and> (\<forall>u\<in>set s. \<not> isAZ u) then Some TwoWheeler
         else None)"

text \<open>
  The same classification read off the code as it was typed, for a code of ASCII
  characters: no upper-casing and no trimming is mentioned.
\<close>

definition isAsciiLetter :: "nat \<Rightarrow> bool" where
  "isAsciiLetter u = ((65 \<le> u \<and> u \<le> 90) \<or> (97 \<le> u \<and> u \<le> 122))"

definition bucketOfAscii :: "ustring \<Rightarrow> Bucket option" where
  "bucketOfAscii code =
     (if of_char (CHR ''r'') \<in> set code \<or> of_char (CHR ''R'') \<in> set code then Some Pcr
      else if of_char (CHR ''d'') \<in> set code \<or> of_char (CHR ''D'') \<in> set code then Some Nylon
      else if (\<exists>u\<in>set code. \<not> isWhiteSpace u) \<and> (\<forall>u\<in>set code. \<not> isAsciiLetter u)
        then Some TwoWheeler
      else None)"

text \<open>The quantity an entry's line items put into one bucket.\<close>

definition qtyOf :: "Host \<Rightarrow> Bucket \<Rightarrow> LedgerEntry \<Rightarrow> number" where
  "qtyOf h b e =
     (\<Sum>i\<leftarrow>itemsToProcess e. if bucketOf h (size_item i) = Some b then quantity_item i else 0)"

text \<open>
  An original sale is an invoice whose \<open>originalRefId\<close> is unset (absent or empty, as
  the source's test \<open>!e.originalRefId\<close> reads it); a balance-forward invoice has it set.
\<close>

definition isOriginalInvoice :: "LedgerEntry \<Rightarrow> bool" where
  "isOriginalInvoice e = (type_entry e = INVOICE \<and> falsy (originalRefId e))"

definition isBalanceForward :: "LedgerEntry \<Rightarrow> bool" where
  "isBalanceForward e = (type_entry e = INVOICE \<and> \<not> falsy (originalRefId e))"

text \<open>
  The ledgers of the data model: every entry has an id of its own, and the date of every
  pending invoice is one the host parses.
\<close>

definition uniqueIds :: "LedgerEntry list \<Rightarrow> bool" where
  "uniqueIds entries = distinct (map id_entry entries)"

definition pendingDatesValid :: "Host \<Rightarrow> LedgerEntry list \<Rightarrow> bool" where
  "pendingDatesValid h entries =
     (\<forall>e\<in>set entries. isPending e \<longrightarrow> hostGetTime h (date e) \<noteq> None)"

text \<open>The entries of the selected month; every entry when no month is selected.\<close>

definition inPeriod :: "string \<Rightarrow> LedgerEntry \<Rightarrow> bool" where
  "inPeriod filterDate e = (filterDate = [] \<or> prefix filterDate (date e))"

text \<open>
  What \<open>sort\<close> asks of a comparator: equal arguments compare equal, swapping the
  arguments swaps the sign, and "not greater" is transitive.
\<close>

definition consistentComparator :: "('a \<Rightarrow> 'a \<Rightarrow> int) \<Rightarrow> bool" where
  "consistentComparator cmp =
     ((\<forall>a. cmp a a = 0) \<and>
      (\<forall>a b. (cmp a b < 0) = (cmp b a > 0)) \<and>
      (\<forall>a b c. cmp a b \<le> 0 \<and> cmp b c \<le> 0 \<longrightarrow> cmp a c \<le> 0))"

text \<open>
  What the two options of the collator mean. A comparison is numeric-aware when, of two
  strings that are one text followed by a run of digits each, the one whose digits are
  the smaller number comes first. It is case-insensitive when two strings that differ
  only in the case of their ASCII letters compare equal.
\<close>

definition asciiUpper :: "char \<Rightarrow> char" where
  "asciiUpper c =
     (if CHR ''a'' \<le> c \<and> c \<le> CHR ''z''
      then (case c of Char b0 b1 b2 b3 b4 b5 b6 b7 \<Rightarrow> Char b0 b1 b2 b3 b4 False b6 b7)
      else c)"

definition isDigit :: "char \<Rightarrow> bool" where
  "isDigit c = (CHR ''0'' \<le> c \<and> c \<le> CHR ''9'')"

definition digitsValue :: "string \<Rightarrow> nat" where
  "digitsValue ds = foldl (\<lambda>n c. 10 * n + (of_char c - 48)) 0 ds"

definition numericAware :: "(string \<Rightarrow> string \<Rightarrow> int) \<Rightarrow> bool" where
  "numericAware cmp =
     (\<forall>p m n. (p = [] \<or> \<not> isDigit (last p)) \<and> m \<noteq> [] \<and> n \<noteq> []
        \<and> list_all isDigit m \<and> list_all isDigit n \<and> digitsValue m < digitsValue n
        \<longrightarrow> cmp (p @ m) (p @ n) < 0)"

definition caseInsensitive :: "(string \<Rightarrow> string \<Rightarrow> int) \<Rightarrow> bool" where
  "caseInsensitive cmp = (\<forall>a b. map asciiUpper a = map asciiUpper b \<longrightarrow> cmp a b = 0)"

text \<open>
  The host's collator: a consistent comparator under any options, numeric-aware when
  \<open>numeric\<close> is set, and case-insensitive at the sensitivity \<open>base\<close>.
\<close>

definition collatorHonoursOptions :: "Host \<Rightarrow> bool" where
  "collatorHonoursOptions h =
     (\<forall>opts. consistentComparator (hostLocaleCompare h opts)
        \<and> (numeric opts \<longrightarrow> numericAware (hostLocaleCompare h opts))
        \<and> (sensitivity opts = Base \<longrightarrow> caseInsensitive (hostLocaleCompare h opts)))"

section \<open>An instance of the host\<close>

text \<open>
  Modelled from the spec: the numeric-aware, case-insensitive comparison of invoice
  numbers, which the source leaves to the host's collator. Following section 9 of the
  specification, a string is split into digit runs and other characters; a digit run
  is compared by its value, at the place of the digit \<open>0\<close>, and any other character by
  the code of its upper-case form.
\<close>

fun numericKey :: "nat option \<Rightarrow> string \<Rightarrow> (nat \<times> nat) list" where
  "numericKey run [] = (case run of None \<Rightarrow> [] | Some n \<Rightarrow> [(48, n)])"
| "numericKey run (c # cs) =
     (if isDigit c
      then numericKey (Some (10 * (case run of None \<Rightarrow> 0 | Some n \<Rightarrow> n) + (of_char c - 48))) cs
      else (case run of None \<Rightarrow> [] | Some n \<Rightarrow> [(48, n)])
           @ (of_char (asciiUpper c), 0) # numericKey None cs)"

definition numericCompare :: "string \<Rightarrow> string \<Rightarrow> int" where
  "numericCompare a b =
     (let ka = numericKey None a; kb = numericKey None b
      in if ka < kb then - 1 else if kb < ka then 1 else 0)"

text \<open>
  The timestamps (milliseconds, UTC midnight) of three ISO dates, and \<open>NaN\<close> for every
  other string.
\<close>

definition demoTime :: "string \<Rightarrow> int option" where
  "demoTime s =
     (if s = ''2024-01-05'' then Some 1704412800000
      else if s = ''2024-01-20'' then Some 1705708800000
      else if s = ''2024-02-01'' then Some 1706745600000
      else None)"

text \<open>A currency format, spelled out at the one amount the examples format.\<close>

definition demoInr :: "number \<Rightarrow> string" where
  "demoInr a = (if a = 400 then ''Rs 400.00'' else ''Rs'')"

text \<open>
  A host for the examples. Its subtraction is exact, as the floating-point one is on
  the amounts of the examples; \<open>hostCent\<close> is the double nearest to \<open>0.01\<close>.
\<close>

definition demoHost :: Host where
  "demoHost =
     \<lparr>hostLocaleCompare = (\<lambda>opts. numericCompare),
      hostToUpperCase = (\<lambda>s. s),
      hostGetTime = demoTime,
      hostSort = (\<lambda>xs. xs),
      hostFormatINR = demoInr,
      hostMinus = (\<lambda>a b. a - b),
      hostCent = 5764607523034235 / 576460752303423488\<rparr>"

text \<open>Sample entries: invoices with one line item each, and a payment.\<close>

definition demoInvoice ::
  "string \<Rightarrow> string \<Rightarrow> string \<Rightarrow> string \<Rightarrow> number \<Rightarrow> number \<Rightarrow> Status \<Rightarrow> LedgerEntry" where
  "demoInvoice i d no sz qty amt st =
     \<lparr>id_entry = i, type_entry = INVOICE, date = d, invoiceNo = no,
      size_entry = Some (codeUnits sz), pattern_entry = Some ''ZX'', quantity_entry = Some qty,
      unitPrice_entry = Some 0, invoiceAmount = Some amt,
      items = Some [\<lparr>id_item = ''item'', size_item = codeUnits sz, pattern_item = ''ZX'',
                      quantity_item = qty, unitPrice_item = amt / qty\<rparr>],
      dueDate = Some ''2024-02-04'', paymentAmount = None, cnAmount = None,
      status = Some st, originalRefId = None, notes_entry = Some ''note''\<rparr>"

definition demoLedger :: "LedgerEntry list" where
  "demoLedger =
     [demoInvoice ''a'' ''2024-01-20'' ''INV-10'' ''100/90-D17'' 2 1500 PENDING,
      demoInvoice ''b'' ''2024-01-05'' ''INV-10'' ''195/55-R16'' 4 1000 PENDING,
      demoInvoice ''c'' ''2024-01-05'' ''INV-2'' ''90/100'' 3 700 PAID,
      newPayment ''p'' ''2024-01-20'' 300 ''cash'']"

text \<open>A balance-forward invoice, as the credit-note branch builds them.\<close>

definition demoBalance :: LedgerEntry where
  "demoBalance =
     (demoInvoice ''x'' ''2024-01-05'' ''INV-10-BAL'' ''Balance Forward'' 1 600 PENDING)
       \<lparr>items := Some [], originalRefId := Some ''b''\<rparr>"

text \<open>The earliest pending invoice of the sample ledger.\<close>

definition demoTarget :: LedgerEntry where
  "demoTarget = demoInvoice ''b'' ''2024-01-05'' ''INV-10'' ''195/55-R16'' 4 1000 PENDING"

text \<open>An invoice whose size code is the one letter U+00E9, e with acute.\<close>

definition demoAccented :: LedgerEntry where
  "demoAccented =
     (demoInvoice ''e'' ''2024-01-05'' ''INV-3'' [] 5 900 PAID)
       \<lparr>size_entry := Some [233], items := None\<rparr>"

section \<open>Statistics: the global pass\<close>

lemma fold_globalStep:
  "fold globalStep xs (a, b, c) =
     (a + (\<Sum>e\<leftarrow>filter (\<lambda>e. type_entry e = INVOICE \<and> falsy (originalRefId e)) xs.
             orZero (invoiceAmount e)),
      b + (\<Sum>e\<leftarrow>filter (\<lambda>e. type_entry e = PAYMENT) xs. orZero (paymentAmount e)),
      c + (\<Sum>e\<leftarrow>filter (\<lambda>e. type_entry e = CN) xs. orZero (cnAmount e)))"
proof (induction xs arbitrary: a b c)
  case Nil
  then show ?case by simp
next
  case (Cons x xs)
  have step: "globalStep x (a, b, c) =
      (if type_entry x = INVOICE \<and> falsy (originalRefId x) then a + orZero (invoiceAmount x) else a,
       if type_entry x = PAYMENT then b + orZero (paymentAmount x) else b,
       if type_entry x = CN then c + orZero (cnAmount x) else c)"
    by (cases "type_entry x") (simp_all add: globalStep_def)
  have "fold globalStep (x # xs) (a, b, c) = fold globalStep xs (globalStep x (a, b, c))"
    by simp
  also have "\<dots> = fold globalStep xs
      (if type_entry x = INVOICE \<and> falsy (originalRefId x) then a + orZero (invoiceAmount x) else a,
       if type_entry x = PAYMENT then b + orZero (paymentAmount x) else b,
       if type_entry x = CN then c + orZero (cnAmount x) else c)"
    by (simp only: step)
  finally show ?case
    by (simp add: Cons.IH)
qed

lemma outstanding_computeStats:
  "outstanding (computeStats h visible entries) =
     (\<Sum>e\<leftarrow>filter (\<lambda>e. type_entry e = INVOICE \<and> falsy (originalRefId e)) entries.
        orZero (invoiceAmount e))
     - (\<Sum>e\<leftarrow>filter (\<lambda>e. type_entry e = PAYMENT) entries. orZero (paymentAmount e))
     - (\<Sum>e\<leftarrow>filter (\<lambda>e. type_entry e = CN) entries. orZero (cnAmount e))"
  by (simp add: computeStats_def fold_globalStep Let_def)

text \<open>
  C1. For every entry list and every filter state (the month \<open>filterDate\<close>, and whatever
  the host makes of the sort), \<open>outstanding\<close> is the sum of \<open>invoiceAmount\<close> over
  the invoices with \<open>originalRefId\<close> unset, minus the sum of \<open>paymentAmount\<close> over the
  payments, minus the sum of \<open>cnAmount\<close> over the credit notes, each sum taken over the
  whole list; an absent amount counts as \<open>0\<close>.
\<close>

theorem outstanding_global:
  "outstanding (stats h filterDate entries) =
     (\<Sum>e\<leftarrow>filter (\<lambda>e. type_entry e = INVOICE \<and> falsy (originalRefId e)) entries.
        orZero (invoiceAmount e))
     - (\<Sum>e\<leftarrow>filter (\<lambda>e. type_entry e = PAYMENT) entries. orZero (paymentAmount e))
     - (\<Sum>e\<leftarrow>filter (\<lambda>e. type_entry e = CN) entries. orZero (cnAmount e))"
  by (simp add: stats_def outstanding_computeStats)

theorem outstanding_global_witness:
  "outstanding (stats demoHost ''2024-02'' demoLedger) = 1500 + 1000 + 700 - 300 - 0"
  using outstanding_global [of demoHost "''2024-02''" demoLedger]
  by (simp add: demoLedger_def demoInvoice_def newPayment_def falsy_def orZero_def)

section \<open>Statistics: the scoped pass\<close>

lemma processItem_bucket:
  "processItem h item acc =
     (case bucketOf h (size_item item) of
        Some Pcr \<Rightarrow> acc\<lparr>qtyPcr := qtyPcr acc + quantity_item item\<rparr>
      | Some Nylon \<Rightarrow> acc\<lparr>qtyNylon := qtyNylon acc + quantity_item item\<rparr>
      | Some TwoWheeler \<Rightarrow> acc\<lparr>qty2Wheeler := qty2Wheeler acc + quantity_item item\<rparr>
      | None \<Rightarrow> acc)"
  by (auto simp: processItem_def bucketOf_def Let_def testAZ_def list_ex_iff includesChar_def)

lemma processItem_fields:
  "totalInvoiced (processItem h i acc) = totalInvoiced acc"
  "totalPaid (processItem h i acc) = totalPaid acc"
  "totalCN (processItem h i acc) = totalCN acc"
  "outstanding (processItem h i acc) = outstanding acc"
  "qtyPcr (processItem h i acc) =
     qtyPcr acc + (if bucketOf h (size_item i) = Some Pcr then quantity_item i else 0)"
  "qtyNylon (processItem h i acc) =
     qtyNylon acc + (if bucketOf h (size_item i) = Some Nylon then quantity_item i else 0)"
  "qty2Wheeler (processItem h i acc) =
     qty2Wheeler acc + (if bucketOf h (size_item i) = Some TwoWheeler then quantity_item i else 0)"
  by (simp_all add: processItem_bucket split: option.split Bucket.split)

lemma fold_processItem_fields:
  "totalInvoiced (fold (processItem h) is acc) = totalInvoiced acc"
  "totalPaid (fold (processItem h) is acc) = totalPaid acc"
  "totalCN (fold (processItem h) is acc) = totalCN acc"
  "outstanding (fold (processItem h) is acc) = outstanding acc"
  "qtyPcr (fold (processItem h) is acc) =
     qtyPcr acc + (\<Sum>i\<leftarrow>is. if bucketOf h (size_item i) = Some Pcr then quantity_item i else 0)"
  "qtyNylon (fold (processItem h) is acc) =
     qtyNylon acc + (\<Sum>i\<leftarrow>is. if bucketOf h (size_item i) = Some Nylon then quantity_item i else 0)"
  "qty2Wheeler (fold (processItem h) is acc) =
     qty2Wheeler acc
       + (\<Sum>i\<leftarrow>is. if bucketOf h (size_item i) = Some TwoWheeler then quantity_item i else 0)"
  by (induction "is" arbitrary: acc; simp add: processItem_fields)+

lemma scopedStep_fields:
  "totalInvoiced (scopedStep h e acc) =
     totalInvoiced acc + (if isOriginalInvoice e then orZero (invoiceAmount e) else 0)"
  "totalPaid (scopedStep h e acc) =
     totalPaid acc + (if type_entry e = PAYMENT then orZero (paymentAmount e) else 0)"
  "totalCN (scopedStep h e acc) =
     totalCN acc + (if type_entry e = CN then orZero (cnAmount e) else 0)"
  "outstanding (scopedStep h e acc) = outstanding acc"
  "qtyPcr (scopedStep h e acc) = qtyPcr acc + (if isOriginalInvoice e then qtyOf h Pcr e else 0)"
  "qtyNylon (scopedStep h e acc) =
     qtyNylon acc + (if isOriginalInvoice e then qtyOf h Nylon e else 0)"
  "qty2Wheeler (scopedStep h e acc) =
     qty2Wheeler acc + (if isOriginalInvoice e then qtyOf h TwoWheeler e else 0)"
  by (cases "type_entry e";
      simp add: scopedStep_def isOriginalInvoice_def qtyOf_def fold_processItem_fields)+

lemma fold_scopedStep_fields:
  "totalInvoiced (fold (scopedStep h) xs acc) =
     totalInvoiced acc + (\<Sum>e\<leftarrow>xs. if isOriginalInvoice e then orZero (invoiceAmount e) else 0)"
  "totalPaid (fold (scopedStep h) xs acc) =
     totalPaid acc + (\<Sum>e\<leftarrow>xs. if type_entry e = PAYMENT then orZero (paymentAmount e) else 0)"
  "totalCN (fold (scopedStep h) xs acc) =
     totalCN acc + (\<Sum>e\<leftarrow>xs. if type_entry e = CN then orZero (cnAmount e) else 0)"
  "outstanding (fold (scopedStep h) xs acc) = outstanding acc"
  "qtyPcr (fold (scopedStep h) xs acc) =
     qtyPcr acc + (\<Sum>e\<leftarrow>xs. if isOriginalInvoice e then qtyOf h Pcr e else 0)"
  "qtyNylon (fold (scopedStep h) xs acc) =
     qtyNylon acc + (\<Sum>e\<leftarrow>xs. if isOriginalInvoice e then qtyOf h Nylon e else 0)"
  "qty2Wheeler (fold (scopedStep h) xs acc) =
     qty2Wheeler acc + (\<Sum>e\<leftarrow>xs. if isOriginalInvoice e then qtyOf h TwoWheeler e else 0)"
  by (induction xs arbitrary: acc; simp add: scopedStep_fields)+

lemma mset_insertBy: "mset (insertBy cmp x ys) = add_mset x (mset ys)"
  by (induction ys) simp_all

lemma mset_sortBy: "mset (sortBy cmp xs) = mset xs"
  by (induction xs) (simp_all add: sortBy_def mset_insertBy)

lemma sum_list_sortBy:
  fixes f :: "'a \<Rightarrow> number"
  shows "(\<Sum>e\<leftarrow>sortBy cmp xs. f e) = (\<Sum>e\<leftarrow>xs. f e)"
proof -
  have "mset (map f (sortBy cmp xs)) = mset (map f xs)"
    by (simp add: mset_sortBy)
  then show ?thesis
    by (metis sum_mset_sum_list)
qed

lemma filteredEntries_sortBy:
  "filteredEntries h filterDate entries =
     sortBy (compareEntries h) (filter (inPeriod filterDate) entries)"
proof -
  have "filter (inPeriod filterDate) entries =
        (if filterDate \<noteq> [] then filter (\<lambda>e. prefix filterDate (date e)) entries else entries)"
    by (induction entries) (simp_all add: inPeriod_def)
  then show ?thesis by (simp add: filteredEntries_def)
qed

lemma sum_list_filteredEntries:
  fixes f :: "LedgerEntry \<Rightarrow> number"
  shows "(\<Sum>e\<leftarrow>filteredEntries h filterDate entries. f e) =
         (\<Sum>e\<leftarrow>filter (inPeriod filterDate) entries. f e)"
  by (simp add: filteredEntries_sortBy sum_list_sortBy)

lemma stats_fields:
  "totalInvoiced (stats h fd entries) =
     (\<Sum>e\<leftarrow>filter (inPeriod fd) entries. if isOriginalInvoice e then orZero (invoiceAmount e) else 0)"
  "totalPaid (stats h fd entries) =
     (\<Sum>e\<leftarrow>filter (inPeriod fd) entries. if type_entry e = PAYMENT then orZero (paymentAmount e) else 0)"
  "totalCN (stats h fd entries) =
     (\<Sum>e\<leftarrow>filter (inPeriod fd) entries. if type_entry e = CN then orZero (cnAmount e) else 0)"
  "qtyPcr (stats h fd entries) =
     (\<Sum>e\<leftarrow>filter (inPeriod fd) entries. if isOriginalInvoice e then qtyOf h Pcr e else 0)"
  "qtyNylon (stats h fd entries) =
     (\<Sum>e\<leftarrow>filter (inPeriod fd) entries. if isOriginalInvoice e then qtyOf h Nylon e else 0)"
  "qty2Wheeler (stats h fd entries) =
     (\<Sum>e\<leftarrow>filter (inPeriod fd) entries. if isOriginalInvoice e then qtyOf h TwoWheeler e else 0)"
  by (simp_all add: stats_def computeStats_def Let_def split_beta fold_scopedStep_fields
        zeroStats_def sum_list_filteredEntries)

section \<open>Balance-forward invoices in the statistics\<close>

lemma sum_list_drop_zero:
  fixes f :: "'a \<Rightarrow> number"
  assumes "\<And>e. \<not> N e \<Longrightarrow> f e = 0"
  shows "(\<Sum>e\<leftarrow>filter P (filter N xs). f e) = (\<Sum>e\<leftarrow>filter P xs. f e)"
  using assms by (induction xs) auto

lemma not_original_balance: "isBalanceForward e \<Longrightarrow> \<not> isOriginalInvoice e"
  by (simp add: isBalanceForward_def isOriginalInvoice_def)

text \<open>
  C2 (as amended). For every entry list, every month and every host, removing all
  balance-forward invoices from the list changes none of the seven statistics: they are
  left out of \<open>totalInvoiced\<close> and of the three quantity buckets in the filtered and the
  unfiltered view, and they are left out of the global \<open>outstanding\<close> as well.
\<close>

theorem balance_forward_excluded:
  "stats h filterDate (filter (\<lambda>e. \<not> isBalanceForward e) entries) = stats h filterDate entries"
proof (rule Stats.equality)
  let ?N = "\<lambda>e. \<not> isBalanceForward e"
  show "totalInvoiced (stats h filterDate (filter ?N entries)) = totalInvoiced (stats h filterDate entries)"
    unfolding stats_fields by (rule sum_list_drop_zero) (auto dest: not_original_balance)
  show "qtyPcr (stats h filterDate (filter ?N entries)) = qtyPcr (stats h filterDate entries)"
    unfolding stats_fields by (rule sum_list_drop_zero) (auto dest: not_original_balance)
  show "qtyNylon (stats h filterDate (filter ?N entries)) = qtyNylon (stats h filterDate entries)"
    unfolding stats_fields by (rule sum_list_drop_zero) (auto dest: not_original_balance)
  show "qty2Wheeler (stats h filterDate (filter ?N entries)) = qty2Wheeler (stats h filterDate entries)"
    unfolding stats_fields by (rule sum_list_drop_zero) (auto dest: not_original_balance)
  show "totalPaid (stats h filterDate (filter ?N entries)) = totalPaid (stats h filterDate entries)"
    unfolding stats_fields by (rule sum_list_drop_zero) (auto simp: isBalanceForward_def)
  show "totalCN (stats h filterDate (filter ?N entries)) = totalCN (stats h filterDate entries)"
    unfolding stats_fields by (rule sum_list_drop_zero) (auto simp: isBalanceForward_def)
  have f: "\<And>P. (\<And>e. P e \<Longrightarrow> ?N e) \<Longrightarrow> filter P (filter ?N entries) = filter P entries"
    by (induction entries) auto
  have f1: "filter (\<lambda>e. type_entry e = INVOICE \<and> falsy (originalRefId e)) (filter ?N entries)
            = filter (\<lambda>e. type_entry e = INVOICE \<and> falsy (originalRefId e)) entries"
    by (rule f) (simp add: isBalanceForward_def)
  have f2: "filter (\<lambda>e. type_entry e = PAYMENT) (filter ?N entries)
            = filter (\<lambda>e. type_entry e = PAYMENT) entries"
    by (rule f) (simp add: isBalanceForward_def)
  have f3: "filter (\<lambda>e. type_entry e = CN) (filter ?N entries)
            = filter (\<lambda>e. type_entry e = CN) entries"
    by (rule f) (simp add: isBalanceForward_def)
  show "outstanding (stats h filterDate (filter ?N entries)) = outstanding (stats h filterDate entries)"
    unfolding stats_def outstanding_computeStats f1 f2 f3 ..
qed simp

theorem balance_forward_excluded_witness:
  "stats demoHost ''2024-01'' (demoBalance # demoLedger) = stats demoHost ''2024-01'' demoLedger
   \<and> isBalanceForward demoBalance"
  using balance_forward_excluded [of demoHost "''2024-01''" "demoBalance # demoLedger"]
  by (simp add: demoBalance_def demoLedger_def demoInvoice_def newPayment_def isBalanceForward_def falsy_def)

text \<open>
  C2 as stated says that a balance-forward invoice enters \<open>outstanding\<close> with its own
  \<open>invoiceAmount\<close>. A pending balance-forward invoice of 600 put in front of the sample
  ledger leaves \<open>outstanding\<close> where it was.
\<close>

theorem balance_forward_in_outstanding_counterexample:
  "outstanding (stats demoHost [] (demoBalance # demoLedger))
     = outstanding (stats demoHost [] demoLedger)
   \<and> type_entry demoBalance = INVOICE \<and> originalRefId demoBalance = Some ''b''
   \<and> invoiceAmount demoBalance = Some 600 \<and> status demoBalance = Some PENDING"
  by (simp add: stats_def outstanding_computeStats demoBalance_def demoLedger_def demoInvoice_def newPayment_def falsy_def)

section \<open>Size codes\<close>

text \<open>
  Trimming keeps every character that is not white space, and leaves a code empty
  exactly when it has no other character. On a code of ASCII characters upper-casing
  moves the letters \<open>a\<close> to \<open>z\<close> and nothing else.
\<close>

lemma in_dropWhile: "x \<in> set xs \<Longrightarrow> \<not> P x \<Longrightarrow> x \<in> set (dropWhile P xs)"
  by (induction xs) auto

lemma in_trim: "\<not> isWhiteSpace c \<Longrightarrow> (c \<in> set (trim t)) = (c \<in> set t)"
proof
  assume "c \<in> set (trim t)"
  then have "c \<in> set (dropWhile isWhiteSpace (rev (dropWhile isWhiteSpace t)))"
    by (simp add: trim_def)
  then have "c \<in> set (dropWhile isWhiteSpace t)"
    using set_dropWhileD by fastforce
  then show "c \<in> set t" by (rule set_dropWhileD)
next
  assume n: "\<not> isWhiteSpace c" and "c \<in> set t"
  then have "c \<in> set (rev (dropWhile isWhiteSpace t))"
    by (simp add: in_dropWhile)
  with n have "c \<in> set (dropWhile isWhiteSpace (rev (dropWhile isWhiteSpace t)))"
    by (rule in_dropWhile [rotated])
  then show "c \<in> set (trim t)" by (simp add: trim_def)
qed

lemma trim_empty: "(trim t \<noteq> []) = (\<exists>u\<in>set t. \<not> isWhiteSpace u)"
proof
  assume "trim t \<noteq> []"
  then have ne: "dropWhile isWhiteSpace (rev (dropWhile isWhiteSpace t)) \<noteq> []"
    by (simp add: trim_def)
  then have "\<not> isWhiteSpace (hd (dropWhile isWhiteSpace (rev (dropWhile isWhiteSpace t))))"
    by (simp add: hd_dropWhile)
  moreover have "hd (dropWhile isWhiteSpace (rev (dropWhile isWhiteSpace t))) \<in> set t"
    using ne by (metis hd_in_set set_dropWhileD set_rev)
  ultimately show "\<exists>u\<in>set t. \<not> isWhiteSpace u" by blast
next
  assume "\<exists>u\<in>set t. \<not> isWhiteSpace u"
  then obtain u where "u \<in> set t" "\<not> isWhiteSpace u" by blast
  then have "u \<in> set (trim t)" by (simp add: in_trim)
  then show "trim t \<noteq> []" by auto
qed

lemma toUpperCase_ascii:
  assumes "\<forall>u\<in>set s. u < 128"
  shows "toUpperCase h s = map (\<lambda>u. if 97 \<le> u \<and> u \<le> 122 then u - 32 else u) s"
proof -
  have l: "list_all (\<lambda>u. u < 256) s" using assms by (auto simp: list_all_iff)
  have "concat (map upperLatin1 s) = map (\<lambda>u. if 97 \<le> u \<and> u \<le> 122 then u - 32 else u) s"
    using assms by (induction s) (auto simp: upperLatin1_def)
  with l show ?thesis by (simp add: toUpperCase_def)
qed

lemma not_white_65_122: "65 \<le> u \<Longrightarrow> u \<le> 122 \<Longrightarrow> \<not> isWhiteSpace u"
  unfolding isWhiteSpace_def by simp

lemma upper_ascii_eq:
  fixes u c :: nat
  assumes "65 \<le> c" "c \<le> 90"
  shows "(c = (if 97 \<le> u \<and> u \<le> 122 then u - 32 else u)) = (u = c \<or> u = c + 32)"
  using assms by (cases "97 \<le> u \<and> u \<le> 122") (simp_all, arith+)

lemma upper_ascii_white:
  "isWhiteSpace (if 97 \<le> u \<and> u \<le> 122 then u - 32 else u) = isWhiteSpace u"
proof (cases "97 \<le> u \<and> u \<le> 122")
  case True
  then have "65 \<le> u - 32" "u - 32 \<le> 122" "65 \<le> u" by arith+
  with True have "\<not> isWhiteSpace (u - 32)" "\<not> isWhiteSpace u"
    by (simp_all add: not_white_65_122)
  with True show ?thesis by simp
next
  case False
  then show ?thesis by auto
qed

lemma upper_ascii_letter:
  "isAZ (if 97 \<le> u \<and> u \<le> 122 then u - 32 else u) = isAsciiLetter u"
  by (cases "97 \<le> u \<and> u \<le> 122") (simp_all add: isAZ_def isAsciiLetter_def, arith+)

lemma bucketOf_ascii:
  assumes "\<forall>u\<in>set code. u < 128"
  shows "bucketOf h code = bucketOfAscii code"
proof -
  let ?up = "\<lambda>u::nat. if 97 \<le> u \<and> u \<le> 122 then u - 32 else u"
  let ?s = "trim (toUpperCase h code)"
  have up: "toUpperCase h code = map ?up code" by (rule toUpperCase_ascii [OF assms])
  have inc: "\<And>c::nat. 65 \<le> c \<Longrightarrow> c \<le> 90 \<Longrightarrow> (c \<in> set ?s) = (c \<in> set code \<or> c + 32 \<in> set code)"
  proof -
    fix c :: nat assume c: "65 \<le> c" "c \<le> 90"
    then have "\<not> isWhiteSpace c" by (simp add: not_white_65_122)
    then have "(c \<in> set ?s) = (c \<in> set (map ?up code))"
      unfolding up by (rule in_trim)
    also have "\<dots> = (\<exists>u\<in>set code. c = ?up u)"
      by (simp only: set_map image_iff)
    also have "\<dots> = (\<exists>u\<in>set code. u = c \<or> u = c + 32)"
      by (simp only: upper_ascii_eq [OF c])
    also have "\<dots> = (c \<in> set code \<or> c + 32 \<in> set code)" by blast
    finally show "(c \<in> set ?s) = (c \<in> set code \<or> c + 32 \<in> set code)" .
  qed
  have r: "includesChar ?s CHR ''R'' = (of_char CHR ''r'' \<in> set code \<or> of_char CHR ''R'' \<in> set code)"
    using inc [of 82] by (auto simp: includesChar_def)
  have d: "includesChar ?s CHR ''D'' = (of_char CHR ''d'' \<in> set code \<or> of_char CHR ''D'' \<in> set code)"
    using inc [of 68] by (auto simp: includesChar_def)
  have e: "(?s \<noteq> []) = (\<exists>u\<in>set code. \<not> isWhiteSpace u)"
    unfolding up trim_empty by (simp only: set_map ball_simps bex_simps image_iff upper_ascii_white)
  have az: "\<And>v. isAZ v \<Longrightarrow> \<not> isWhiteSpace v"
    by (simp add: isAZ_def not_white_65_122)
  have "(\<exists>v\<in>set ?s. isAZ v) = (\<exists>v\<in>set (map ?up code). isAZ v)"
    unfolding up using az in_trim by blast
  also have "\<dots> = (\<exists>u\<in>set code. isAsciiLetter u)"
    by (simp only: set_map bex_simps upper_ascii_letter)
  finally have l: "(\<forall>v\<in>set ?s. \<not> isAZ v) = (\<forall>u\<in>set code. \<not> isAsciiLetter u)" by blast
  show ?thesis
    unfolding bucketOf_def bucketOfAscii_def Let_def r d e l by simp
qed

lemmas bucket_defs = bucketOf_def trim_def toUpperCase_def upperLatin1_def isWhiteSpace_def
  includesChar_def isAZ_def codeUnits_def Let_def

text \<open>
  C6 (as amended). A line item of an original invoice in the scoped pass adds its
  quantity to the bucket that \<open>bucketOf\<close> gives its size code, and to none when there is
  none: the code in upper case and trimmed goes to PCR when it contains \<open>R\<close>, else to
  nylon when it contains \<open>D\<close>, else to 2-wheeler when it is not empty and has none of
  the letters \<open>A\<close> to \<open>Z\<close>. So each of the three quantities of \<open>stats\<close> is the sum, over
  the line items of the original invoices in view, of the quantities of the items of
  its bucket. For a code of ASCII characters this is: PCR when it has an \<open>r\<close> or \<open>R\<close>,
  else nylon when it has a \<open>d\<close> or \<open>D\<close>, else 2-wheeler when it has a character
  that is not white space and has no letter. The five codes of the specification are
  classified as it says; \<open>R\<close> wins over \<open>D\<close>; lower case and white space around a code
  do not matter; a code of white space alone, U+00A0 included, has no bucket; a letter
  outside ASCII, as in the code U+00E9, does not keep a code out of 2-wheeler, while the
  sharp s, in upper case \<open>SS\<close>, does.
\<close>

theorem category_classification:
  "processItem h item acc =
     (case bucketOf h (size_item item) of
        Some Pcr \<Rightarrow> acc\<lparr>qtyPcr := qtyPcr acc + quantity_item item\<rparr>
      | Some Nylon \<Rightarrow> acc\<lparr>qtyNylon := qtyNylon acc + quantity_item item\<rparr>
      | Some TwoWheeler \<Rightarrow> acc\<lparr>qty2Wheeler := qty2Wheeler acc + quantity_item item\<rparr>
      | None \<Rightarrow> acc)
   \<and> qtyPcr (stats h filterDate entries) =
       (\<Sum>e\<leftarrow>filter (inPeriod filterDate) entries. if isOriginalInvoice e then qtyOf h Pcr e else 0)
   \<and> qtyNylon (stats h filterDate entries) =
       (\<Sum>e\<leftarrow>filter (inPeriod filterDate) entries. if isOriginalInvoice e then qtyOf h Nylon e else 0)
   \<and> qty2Wheeler (stats h filterDate entries) =
       (\<Sum>e\<leftarrow>filter (inPeriod filterDate) entries.
          if isOriginalInvoice e then qtyOf h TwoWheeler e else 0)
   \<and> ((\<forall>u\<in>set code. u < 128) \<longrightarrow> bucketOf h code = bucketOfAscii code)
   \<and> bucketOf h (codeUnits ''195/55-R16'') = Some Pcr
   \<and> bucketOf h (codeUnits ''100/90-D17'') = Some Nylon
   \<and> bucketOf h (codeUnits ''90/100'') = Some TwoWheeler
   \<and> bucketOf h [] = None
   \<and> bucketOf h (codeUnits ''XL'') = None
   \<and> bucketOf h (codeUnits ''D-R'') = Some Pcr
   \<and> bucketOf h (codeUnits '' 195/55-r16  '') = Some Pcr
   \<and> bucketOf h (codeUnits ''   '') = None
   \<and> bucketOf h [160, 9] = None
   \<and> bucketOf h ([160] @ codeUnits ''90/100'' @ [9]) = Some TwoWheeler
   \<and> bucketOf h [233] = Some TwoWheeler
   \<and> bucketOf h (codeUnits ''90'' @ [223]) = None"
proof -
  have ex: "bucketOf h (codeUnits ''195/55-R16'') = Some Pcr"
    "bucketOf h (codeUnits ''100/90-D17'') = Some Nylon"
    "bucketOf h (codeUnits ''90/100'') = Some TwoWheeler"
    "bucketOf h [] = None"
    "bucketOf h (codeUnits ''XL'') = None"
    "bucketOf h (codeUnits ''D-R'') = Some Pcr"
    "bucketOf h (codeUnits '' 195/55-r16  '') = Some Pcr"
    "bucketOf h (codeUnits ''   '') = None"
    "bucketOf h [160, 9] = None"
    "bucketOf h ([160] @ codeUnits ''90/100'' @ [9]) = Some TwoWheeler"
    "bucketOf h [233] = Some TwoWheeler"
    "bucketOf h (codeUnits ''90'' @ [223]) = None"
    by (simp_all add: bucket_defs)
  have a: "(\<forall>u\<in>set code. u < 128) \<longrightarrow> bucketOf h code = bucketOfAscii code"
    using bucketOf_ascii by blast
  show ?thesis
    using processItem_bucket [of h item acc] stats_fields(4,5,6) [of h filterDate entries] ex a
    by simp
qed

theorem category_classification_witness:
  "qtyPcr (stats demoHost ''2024-01'' demoLedger) = 4
   \<and> qtyNylon (stats demoHost ''2024-01'' demoLedger) = 2
   \<and> qty2Wheeler (stats demoHost ''2024-01'' demoLedger) = 3"
  using category_classification [of demoHost _ _ "''2024-01''" demoLedger]
  by (simp add: demoLedger_def demoInvoice_def newPayment_def inPeriod_def isOriginalInvoice_def
        falsy_def qtyOf_def itemsToProcess_def bucket_defs)

text \<open>
  C6 as stated gives no bucket to a code whose only letters are neither \<open>R\<close> nor \<open>D\<close>.
  The legacy invoice whose size code is the one letter U+00E9, e with acute, has its
  quantity of 5 counted as 2-wheeler.
\<close>

theorem category_classification_counterexample:
  "map size_item (itemsToProcess demoAccented) = [[233]]
   \<and> qtyPcr (stats demoHost [] [demoAccented]) = 0
   \<and> qtyNylon (stats demoHost [] [demoAccented]) = 0
   \<and> qty2Wheeler (stats demoHost [] [demoAccented]) = 5"
  by (simp add: stats_fields demoAccented_def demoInvoice_def inPeriod_def isOriginalInvoice_def
        falsy_def qtyOf_def itemsToProcess_def orEmpty_def orZero_def bucket_defs)

section \<open>Sorting\<close>

lemma set_insertBy: "set (insertBy cmp x ys) = insert x (set ys)"
  by (induction ys) auto

lemma set_sortBy: "set (sortBy cmp xs) = set xs"
  by (induction xs) (simp_all add: sortBy_def set_insertBy)

lemma sorted_insertBy:
  assumes "consistentComparator cmp" and "sorted_wrt (\<lambda>a b. cmp a b \<le> 0) ys"
  shows "sorted_wrt (\<lambda>a b. cmp a b \<le> 0) (insertBy cmp x ys)"
  using assms(2)
proof (induction ys)
  case Nil
  then show ?case by simp
next
  case (Cons y ys)
  have trans: "\<And>a b c. cmp a b \<le> 0 \<Longrightarrow> cmp b c \<le> 0 \<Longrightarrow> cmp a c \<le> 0"
    using assms(1) unfolding consistentComparator_def by blast
  have anti: "\<And>a b. cmp a b > 0 \<Longrightarrow> cmp b a \<le> 0"
    using assms(1) unfolding consistentComparator_def by (metis less_le_not_le)
  show ?case
  proof (cases "cmp x y \<le> 0")
    case True
    then have "\<forall>z\<in>set (y # ys). cmp x z \<le> 0"
      using Cons.prems trans by auto
    with True Cons.prems show ?thesis by simp
  next
    case False
    then have "cmp y x \<le> 0" using anti by simp
    with False Cons show ?thesis
      by (auto simp: set_insertBy)
  qed
qed

lemma sorted_sortBy:
  assumes "consistentComparator cmp"
  shows "sorted_wrt (\<lambda>a b. cmp a b \<le> 0) (sortBy cmp xs)"
proof (induction xs)
  case Nil
  then show ?case by (simp add: sortBy_def)
next
  case (Cons x xs)
  have "sortBy cmp (x # xs) = insertBy cmp x (sortBy cmp xs)"
    by (simp add: sortBy_def)
  with Cons sorted_insertBy [OF assms] show ?case by simp
qed

lemma filter_insertBy:
  assumes "\<And>a b. P a \<Longrightarrow> P b \<Longrightarrow> cmp a b \<le> 0"
  shows "filter P (insertBy cmp x ys) = (if P x then x # filter P ys else filter P ys)"
  using assms by (induction ys) auto

lemma filter_sortBy:
  assumes "\<And>a b. P a \<Longrightarrow> P b \<Longrightarrow> cmp a b \<le> 0"
  shows "filter P (sortBy cmp xs) = filter P xs"
proof (induction xs)
  case Nil
  then show ?case by (simp add: sortBy_def)
next
  case (Cons x xs)
  have "sortBy cmp (x # xs) = insertBy cmp x (sortBy cmp xs)"
    by (simp add: sortBy_def)
  then show ?case
    using Cons filter_insertBy [of P cmp x "sortBy cmp xs", OF assms] by simp
qed

lemma compareEntries_le:
  "compareEntries h a b \<le> 0 \<longleftrightarrow>
     date a < date b \<or> (date a = date b
       \<and> hostLocaleCompare h \<lparr>numeric = True, sensitivity = Base\<rparr> (invoiceNo a) (invoiceNo b) \<le> 0)"
  by (auto simp: compareEntries_def)

lemma consistent_compareEntries:
  assumes "consistentComparator (hostLocaleCompare h \<lparr>numeric = True, sensitivity = Base\<rparr>)"
  shows "consistentComparator (compareEntries h)"
proof -
  let ?lc = "hostLocaleCompare h \<lparr>numeric = True, sensitivity = Base\<rparr>"
  have refl: "\<And>a. ?lc a a = 0" and anti: "\<And>a b. (?lc a b < 0) = (?lc b a > 0)"
    and trans: "\<And>a b c. ?lc a b \<le> 0 \<Longrightarrow> ?lc b c \<le> 0 \<Longrightarrow> ?lc a c \<le> 0"
    using assms unfolding consistentComparator_def by blast+
  have 1: "\<forall>a. compareEntries h a a = 0"
    by (simp add: compareEntries_def refl)
  have 2: "\<forall>a b. (compareEntries h a b < 0) = (compareEntries h b a > 0)"
    using anti by (auto simp: compareEntries_def)
  have 3: "\<forall>a b c. compareEntries h a b \<le> 0 \<and> compareEntries h b c \<le> 0
             \<longrightarrow> compareEntries h a c \<le> 0"
    unfolding compareEntries_le using trans by (metis less_trans)
  show ?thesis
    unfolding consistentComparator_def using 1 2 3 by blast
qed

section \<open>The comparator of the examples\<close>

lemma asciiUpper_not_lower: "\<not> (CHR ''a'' \<le> asciiUpper c \<and> asciiUpper c \<le> CHR ''z'')"
  by (cases c) (auto simp: asciiUpper_def)

lemma asciiUpper_idem: "asciiUpper (asciiUpper c) = asciiUpper c"
  using asciiUpper_not_lower [of c] by (auto simp: asciiUpper_def [of "asciiUpper c"])

lemma isDigit_asciiUpper: "isDigit (asciiUpper c) = isDigit c"
  by (cases c) (auto simp: asciiUpper_def isDigit_def)

lemma asciiUpper_digit: "isDigit c \<Longrightarrow> asciiUpper c = c"
  by (cases c) (auto simp: asciiUpper_def isDigit_def)

lemma numericKey_upper: "numericKey run (map asciiUpper s) = numericKey run s"
  by (induction s arbitrary: run)
     (simp_all add: isDigit_asciiUpper asciiUpper_idem asciiUpper_digit)

lemma numericKey_digits:
  "list_all isDigit m \<Longrightarrow>
   numericKey (Some k) m = [(48, foldl (\<lambda>n c. 10 * n + (of_char c - 48)) k m)]"
  by (induction m arbitrary: k) simp_all

lemma numericKey_digitsValue:
  assumes "m \<noteq> []" and "list_all isDigit m"
  shows "numericKey None m = [(48, digitsValue m)]"
proof -
  from assms obtain d ds where m: "m = d # ds" by (cases m) auto
  with assms(2) show ?thesis
    by (simp add: numericKey_digits digitsValue_def)
qed

lemma numericKey_append:
  "p \<noteq> [] \<Longrightarrow> \<not> isDigit (last p) \<Longrightarrow>
   numericKey run (p @ s) = numericKey run p @ numericKey None s"
proof (induction p arbitrary: run)
  case Nil
  then show ?case by simp
next
  case (Cons c cs)
  show ?case
  proof (cases "cs = []")
    case True
    with Cons.prems show ?thesis by simp
  next
    case False
    with Cons.prems have "\<not> isDigit (last cs)" by simp
    from Cons.IH [OF False this] show ?thesis by simp
  qed
qed

lemma append_less_append:
  fixes xs :: "('a::linorder) list"
  shows "(xs @ ys < xs @ zs) = (ys < zs)"
  by (induction xs) simp_all

lemma numericAware_numericCompare: "numericAware numericCompare"
  unfolding numericAware_def
proof (intro allI impI)
  fix p m n :: string
  assume a: "(p = [] \<or> \<not> isDigit (last p)) \<and> m \<noteq> [] \<and> n \<noteq> [] \<and> list_all isDigit m
    \<and> list_all isDigit n \<and> digitsValue m < digitsValue n"
  have km: "numericKey None m = [(48, digitsValue m)]"
    and kn: "numericKey None n = [(48, digitsValue n)]"
    using a by (simp_all add: numericKey_digitsValue)
  have "numericKey None (p @ m) < numericKey None (p @ n)"
  proof (cases "p = []")
    case True
    with km kn a show ?thesis by simp
  next
    case False
    with a have "\<not> isDigit (last p)" by simp
    from numericKey_append [OF False this] km kn a show ?thesis
      by (simp add: append_less_append)
  qed
  then show "numericCompare (p @ m) (p @ n) < 0"
    by (simp add: numericCompare_def)
qed

lemma caseInsensitive_numericCompare: "caseInsensitive numericCompare"
  unfolding caseInsensitive_def
proof (intro allI impI)
  fix a b :: string
  assume "map asciiUpper a = map asciiUpper b"
  then have "numericKey None a = numericKey None b"
    by (metis numericKey_upper)
  then show "numericCompare a b = 0" by (simp add: numericCompare_def)
qed

lemma consistent_numericCompare: "consistentComparator numericCompare"
  unfolding consistentComparator_def numericCompare_def Let_def
  by (intro conjI allI impI) (auto split: if_splits)

lemma demoHost_collator: "collatorHonoursOptions demoHost"
  by (simp add: collatorHonoursOptions_def demoHost_def consistent_numericCompare
        numericAware_numericCompare caseInsensitive_numericCompare)

section \<open>The order of the visible entries\<close>

text \<open>
  C7. The source asks the host's collator for a numeric-aware comparison at the
  sensitivity \<open>base\<close>. With a collator that honours its options, \<open>filteredEntries\<close>
  returns the entries of the period rearranged, in ascending order of \<open>date\<close> and, among
  equal dates, in the collator's order of \<open>invoiceNo\<close>. Of two entries of one date whose
  numbers are, up to the case of letters, one text followed by digits, the one with the
  greater number never comes first; so no entry numbered \<open>INV-10\<close> comes before one
  numbered \<open>INV-2\<close>. Entries of equal date and equal invoice number keep their input
  order, and so do entries of equal date whose numbers differ only in case.
\<close>

theorem visible_entries_sorted:
  assumes "collatorHonoursOptions h"
  shows "mset (filteredEntries h filterDate entries) = mset (filter (inPeriod filterDate) entries)
    \<and> sorted_wrt (\<lambda>a b. date a \<le> date b) (filteredEntries h filterDate entries)
    \<and> sorted_wrt (\<lambda>a b. date a = date b \<longrightarrow>
          hostLocaleCompare h \<lparr>numeric = True, sensitivity = Base\<rparr> (invoiceNo a) (invoiceNo b) \<le> 0)
         (filteredEntries h filterDate entries)
    \<and> (\<forall>i j p m n. i < j \<and> j < length (filteredEntries h filterDate entries)
          \<and> date (filteredEntries h filterDate entries ! i)
              = date (filteredEntries h filterDate entries ! j)
          \<and> (p = [] \<or> \<not> isDigit (last p)) \<and> m \<noteq> [] \<and> n \<noteq> []
          \<and> list_all isDigit m \<and> list_all isDigit n \<and> digitsValue m < digitsValue n
          \<and> map asciiUpper (invoiceNo (filteredEntries h filterDate entries ! j))
              = map asciiUpper (p @ m)
          \<longrightarrow> map asciiUpper (invoiceNo (filteredEntries h filterDate entries ! i))
                \<noteq> map asciiUpper (p @ n))
    \<and> (\<forall>i j. i < j \<and> j < length (filteredEntries h filterDate entries)
          \<and> date (filteredEntries h filterDate entries ! i)
              = date (filteredEntries h filterDate entries ! j)
          \<longrightarrow> \<not> (invoiceNo (filteredEntries h filterDate entries ! i) = ''INV-10''
                 \<and> invoiceNo (filteredEntries h filterDate entries ! j) = ''INV-2''))
    \<and> (\<forall>d n. filter (\<lambda>e. date e = d \<and> invoiceNo e = n) (filteredEntries h filterDate entries)
             = filter (\<lambda>e. date e = d \<and> invoiceNo e = n) (filter (inPeriod filterDate) entries))
    \<and> (\<forall>d n. filter (\<lambda>e. date e = d \<and> map asciiUpper (invoiceNo e) = n)
               (filteredEntries h filterDate entries)
             = filter (\<lambda>e. date e = d \<and> map asciiUpper (invoiceNo e) = n)
                 (filter (inPeriod filterDate) entries))"
proof -
  let ?out = "filteredEntries h filterDate entries"
  let ?src = "filter (inPeriod filterDate) entries"
  let ?lc = "hostLocaleCompare h \<lparr>numeric = True, sensitivity = Base\<rparr>"
  have cons: "consistentComparator ?lc" and num: "numericAware ?lc" and ci: "caseInsensitive ?lc"
    using assms unfolding collatorHonoursOptions_def
    by (drule_tac x = "\<lparr>numeric = True, sensitivity = Base\<rparr>" in spec, simp)+
  have out: "?out = sortBy (compareEntries h) ?src"
    by (rule filteredEntries_sortBy)
  have refl: "\<And>a. ?lc a a = 0" and anti: "\<And>a b. (?lc a b < 0) = (?lc b a > 0)"
    and trans: "\<And>a b c. ?lc a b \<le> 0 \<Longrightarrow> ?lc b c \<le> 0 \<Longrightarrow> ?lc a c \<le> 0"
    using cons unfolding consistentComparator_def by blast+
  have eqv: "\<And>a b. map asciiUpper a = map asciiUpper b \<Longrightarrow> ?lc a b = 0"
    using ci unfolding caseInsensitive_def by blast
  have srt: "sorted_wrt (\<lambda>a b. compareEntries h a b \<le> 0) ?out"
    unfolding out by (rule sorted_sortBy [OF consistent_compareEntries [OF cons]])
  have 1: "mset ?out = mset ?src"
    unfolding out by (rule mset_sortBy)
  have 2: "sorted_wrt (\<lambda>a b. date a \<le> date b) ?out"
    by (rule sorted_wrt_mono_rel [OF _ srt]) (auto simp: compareEntries_le)
  have 3: "sorted_wrt (\<lambda>a b. date a = date b \<longrightarrow> ?lc (invoiceNo a) (invoiceNo b) \<le> 0) ?out"
    by (rule sorted_wrt_mono_rel [OF _ srt]) (auto simp: compareEntries_le)
  have 4: "\<forall>i j p m n. i < j \<and> j < length ?out \<and> date (?out ! i) = date (?out ! j)
          \<and> (p = [] \<or> \<not> isDigit (last p)) \<and> m \<noteq> [] \<and> n \<noteq> []
          \<and> list_all isDigit m \<and> list_all isDigit n \<and> digitsValue m < digitsValue n
          \<and> map asciiUpper (invoiceNo (?out ! j)) = map asciiUpper (p @ m)
          \<longrightarrow> map asciiUpper (invoiceNo (?out ! i)) \<noteq> map asciiUpper (p @ n)"
  proof (intro allI impI notI)
    fix i j p m n
    assume a: "i < j \<and> j < length ?out \<and> date (?out ! i) = date (?out ! j)
          \<and> (p = [] \<or> \<not> isDigit (last p)) \<and> m \<noteq> [] \<and> n \<noteq> []
          \<and> list_all isDigit m \<and> list_all isDigit n \<and> digitsValue m < digitsValue n
          \<and> map asciiUpper (invoiceNo (?out ! j)) = map asciiUpper (p @ m)"
      and b: "map asciiUpper (invoiceNo (?out ! i)) = map asciiUpper (p @ n)"
    from a 3 have ij: "?lc (invoiceNo (?out ! i)) (invoiceNo (?out ! j)) \<le> 0"
      by (simp add: sorted_wrt_iff_nth_less)
    have "?lc (p @ n) (invoiceNo (?out ! i)) = 0" using b eqv by metis
    moreover have "?lc (invoiceNo (?out ! j)) (p @ m) = 0" using a eqv by metis
    ultimately have "?lc (p @ n) (p @ m) \<le> 0"
      using ij trans by (metis order_refl)
    moreover have "?lc (p @ m) (p @ n) < 0"
      using num a unfolding numericAware_def by blast
    then have "?lc (p @ n) (p @ m) > 0" using anti by simp
    ultimately show False by simp
  qed
  have 5: "\<forall>i j. i < j \<and> j < length ?out \<and> date (?out ! i) = date (?out ! j)
          \<longrightarrow> \<not> (invoiceNo (?out ! i) = ''INV-10'' \<and> invoiceNo (?out ! j) = ''INV-2'')"
  proof (intro allI impI notI)
    fix i j
    assume a: "i < j \<and> j < length ?out \<and> date (?out ! i) = date (?out ! j)"
      and b: "invoiceNo (?out ! i) = ''INV-10'' \<and> invoiceNo (?out ! j) = ''INV-2''"
    have side: "(''INV-'' = [] \<or> \<not> isDigit (last ''INV-'')) \<and> ''2'' \<noteq> [] \<and> ''10'' \<noteq> []
        \<and> list_all isDigit ''2'' \<and> list_all isDigit ''10'' \<and> digitsValue ''2'' < digitsValue ''10''"
      by (simp add: isDigit_def digitsValue_def)
    from 4 [rule_format, of i j "''INV-''" "''2''" "''10''"] a b side
    show False by simp
  qed
  have 6: "\<forall>d n. filter (\<lambda>e. date e = d \<and> invoiceNo e = n) ?out
             = filter (\<lambda>e. date e = d \<and> invoiceNo e = n) ?src"
    unfolding out
    by (intro allI filter_sortBy) (simp add: compareEntries_def refl)
  have 7: "\<forall>d n. filter (\<lambda>e. date e = d \<and> map asciiUpper (invoiceNo e) = n) ?out
             = filter (\<lambda>e. date e = d \<and> map asciiUpper (invoiceNo e) = n) ?src"
    unfolding out
    by (intro allI filter_sortBy) (simp add: compareEntries_def eqv)
  from 1 2 3 4 5 6 7 show ?thesis by blast
qed

theorem visible_entries_sorted_witness:
  "collatorHonoursOptions demoHost
   \<and> sorted_wrt (\<lambda>a b. date a \<le> date b) (filteredEntries demoHost ''2024-01'' demoLedger)
   \<and> map id_entry (filteredEntries demoHost ''2024-01'' demoLedger) = [''c'', ''b'', ''p'', ''a'']
   \<and> hostLocaleCompare demoHost \<lparr>numeric = True, sensitivity = Base\<rparr> ''inv-3'' ''INV-10'' < 0"
proof -
  have h1: "collatorHonoursOptions demoHost"
    by (rule demoHost_collator)
  have ev: "map id_entry (filteredEntries demoHost ''2024-01'' demoLedger) = [''c'', ''b'', ''p'', ''a'']"
    by (simp add: filteredEntries_def sortBy_def compareEntries_def demoLedger_def demoInvoice_def
          newPayment_def demoHost_def numericCompare_def isDigit_def asciiUpper_def)
  have ev2: "hostLocaleCompare demoHost \<lparr>numeric = True, sensitivity = Base\<rparr> ''inv-3'' ''INV-10'' < 0"
    by (simp add: demoHost_def numericCompare_def isDigit_def asciiUpper_def)
  from visible_entries_sorted [OF h1, of "''2024-01''" demoLedger] h1 ev ev2
  show ?thesis by blast
qed

section \<open>Credit notes: the target invoice\<close>

lemma pendingInvoices_valid:
  "pendingDatesValid h entries \<Longrightarrow>
   pendingInvoices h entries = sortBy (compareDates h) (filter isPending entries)"
  by (simp add: pendingInvoices_def pendingDatesValid_def list_all_iff)

lemma pendingInvoices_none:
  "filter isPending entries = [] \<Longrightarrow> pendingInvoices h entries = []"
  by (simp add: pendingInvoices_def sortBy_def)

lemma set_pendingInvoices:
  "pendingDatesValid h entries \<Longrightarrow>
   set (pendingInvoices h entries) = {e \<in> set entries. isPending e}"
  by (simp add: pendingInvoices_valid set_sortBy)

lemma findIndex_None: "findIndex P xs = None \<longleftrightarrow> (\<forall>x\<in>set xs. \<not> P x)"
  by (induction xs) (auto split: option.splits)

lemma findIndex_Some:
  "findIndex P xs = Some i \<Longrightarrow> i < length xs \<and> P (xs ! i) \<and> (\<forall>j<i. \<not> P (xs ! j))"
proof (induction xs arbitrary: i)
  case Nil
  then show ?case by simp
next
  case (Cons x xs)
  show ?case
  proof (cases "P x")
    case True
    with Cons.prems show ?thesis by simp
  next
    case False
    with Cons.prems obtain k where k: "findIndex P xs = Some k" "i = Suc k"
      by (auto split: option.splits)
    from Cons.IH [OF k(1)] False k(2) show ?thesis
      by (auto simp: nth_Cons split: nat.splits)
  qed
qed

lemma findIndex_distinct:
  assumes "distinct (map f xs)" and "x \<in> set xs" and "findIndex (\<lambda>e. f e = f x) xs = Some i"
  shows "xs ! i = x"
proof -
  from findIndex_Some [OF assms(3)] have i: "i < length xs" "f (xs ! i) = f x" by auto
  from assms(2) obtain k where k: "k < length xs" "xs ! k = x"
    by (auto simp: in_set_conv_nth)
  have "(map f xs ! i = map f xs ! k) = (i = k)"
    using assms(1) i(1) k(1) by (intro nth_eq_iff_index_eq) simp_all
  moreover have "map f xs ! i = map f xs ! k" using i k by simp
  ultimately have "i = k" by blast
  with k show ?thesis by simp
qed

lemma applyCreditNote_unattached:
  assumes "pendingInvoices h entries = [] \<or> amountVal \<le> 0"
  shows "applyCreditNote h cnId balId entries amountVal transDate transNotes =
           Some (entries @ [cnEntry cnId transDate amountVal transNotes])"
  using assms by (auto simp: applyCreditNote_def Let_def split: list.splits)

text \<open>
  On a ledger of the data model the target is found at its own place, so the handler
  never writes through index \<open>-1\<close>.
\<close>

lemma applyCreditNote_target:
  assumes "uniqueIds entries" and "pendingDatesValid h entries"
    and "pendingInvoices h entries = target # rest" and "0 < amountVal"
  shows "\<exists>i<length entries. entries ! i = target \<and>
           applyCreditNote h cnId balId entries amountVal transDate transNotes =
             Some (if \<bar>hostMinus h amountVal (orZero (invoiceAmount target))\<bar> < hostCent h
                      \<or> \<not> amountVal < orZero (invoiceAmount target)
                   then entries[i := settleByCN target]
                        @ [cnEntry cnId transDate amountVal transNotes]
                   else entries[i := adjustByCN h amountVal target]
                        @ [balanceInvoice balId
                             (hostMinus h (orZero (invoiceAmount target)) amountVal) target,
                           cnEntry cnId transDate amountVal transNotes])"
proof -
  have "target \<in> set (pendingInvoices h entries)" using assms(3) by simp
  then have mem: "target \<in> set entries"
    using set_pendingInvoices [OF assms(2)] by simp
  then have "findIndex (\<lambda>e. id_entry e = id_entry target) entries \<noteq> None"
    by (auto simp: findIndex_None)
  then obtain i where i: "findIndex (\<lambda>e. id_entry e = id_entry target) entries = Some i"
    by auto
  then have len: "i < length entries" using findIndex_Some by blast
  have t: "entries ! i = target"
    using findIndex_distinct [OF _ mem i] assms(1) by (simp add: uniqueIds_def)
  have "applyCreditNote h cnId balId entries amountVal transDate transNotes =
             Some (if \<bar>hostMinus h amountVal (orZero (invoiceAmount target))\<bar> < hostCent h
                      \<or> \<not> amountVal < orZero (invoiceAmount target)
                   then entries[i := settleByCN target]
                        @ [cnEntry cnId transDate amountVal transNotes]
                   else entries[i := adjustByCN h amountVal target]
                        @ [balanceInvoice balId
                             (hostMinus h (orZero (invoiceAmount target)) amountVal) target,
                           cnEntry cnId transDate amountVal transNotes])"
    using assms(3,4) i t by (simp add: applyCreditNote_def Let_def)
  with len t show ?thesis by blast
qed

lemma handleSubmitTransaction_CN:
  "falsy editingId \<Longrightarrow>
   handleSubmitTransaction h newId1 newId2 editingId CN transDate amountVal transNotes entries
     = applyCreditNote h newId1 newId2 entries amountVal transDate transNotes"
  by (simp add: handleSubmitTransaction_def)

text \<open>
  Where the subtraction of the host is exact and its \<open>0.01\<close> is not below the hundredth,
  two amounts less than a hundredth apart pass the test of the handler.
\<close>

lemma within_cent_exact:
  "hostMinus h a b = a - b \<Longrightarrow> 1 / 100 \<le> hostCent h \<Longrightarrow> \<bar>a - b\<bar> < 1 / 100 \<Longrightarrow>
   \<bar>hostMinus h a b\<bar> < hostCent h"
  by simp

section \<open>The earliest pending invoice\<close>

lemma hd_sortBy_dates:
  assumes "\<forall>e\<in>set xs. hostGetTime h (date e) \<noteq> None"
    and "sortBy (compareDates h) xs = t # ts"
  shows "\<forall>e\<in>set xs. the (hostGetTime h (date t)) \<le> the (hostGetTime h (date e))"
  using assms
proof (induction xs arbitrary: t ts)
  case Nil
  then show ?case by simp
next
  case (Cons x xs)
  have step: "insertBy (compareDates h) x (sortBy (compareDates h) xs) = t # ts"
    using Cons.prems(2) by (simp add: sortBy_def)
  show ?case
  proof (cases "sortBy (compareDates h) xs")
    case Nil
    then have "set xs = {}" using set_sortBy [of "compareDates h" xs] by simp
    with step Nil show ?thesis by simp
  next
    case (Cons t' ts')
    have valid: "\<forall>e\<in>set xs. hostGetTime h (date e) \<noteq> None" using Cons.prems(1) by simp
    from Cons.IH [OF valid Cons]
    have ih: "\<forall>e\<in>set xs. the (hostGetTime h (date t')) \<le> the (hostGetTime h (date e))" .
    have "t' \<in> set xs" using set_sortBy [of "compareDates h" xs] Cons by auto
    with valid obtain th where th: "hostGetTime h (date t') = Some th" by auto
    from Cons.prems(1) obtain tx where tx: "hostGetTime h (date x) = Some tx" by auto
    show ?thesis
    proof (cases "compareDates h x t' \<le> 0")
      case True
      with step Cons have "t = x" by simp
      moreover from True tx th have "tx \<le> th" by (simp add: compareDates_def)
      ultimately show ?thesis using ih tx th by fastforce
    next
      case False
      with step Cons have "t = t'" by simp
      moreover from False tx th have "th \<le> tx" by (simp add: compareDates_def)
      ultimately show ?thesis using ih tx th by fastforce
    qed
  qed
qed

lemma hd_sortBy_first:
  assumes "\<forall>e\<in>set xs. hostGetTime h (date e) \<noteq> None"
    and "sortBy (compareDates h) xs = t # ts"
  shows "\<exists>i<length xs. xs ! i = t
           \<and> (\<forall>j<i. the (hostGetTime h (date t)) < the (hostGetTime h (date (xs ! j))))"
  using assms
proof (induction xs arbitrary: t ts)
  case Nil
  then show ?case by (simp add: sortBy_def)
next
  case (Cons x xs)
  have step: "insertBy (compareDates h) x (sortBy (compareDates h) xs) = t # ts"
    using Cons.prems(2) by (simp add: sortBy_def)
  show ?case
  proof (cases "sortBy (compareDates h) xs")
    case Nil
    with step have "t = x" by simp
    then show ?thesis by auto
  next
    case (Cons t' ts')
    have valid: "\<forall>e\<in>set xs. hostGetTime h (date e) \<noteq> None" using Cons.prems(1) by simp
    from Cons.IH [OF valid Cons] obtain i where
      i: "i < length xs" "xs ! i = t'"
         "\<forall>j<i. the (hostGetTime h (date t')) < the (hostGetTime h (date (xs ! j)))" by blast
    have "t' \<in> set xs" using i by auto
    with valid obtain th where th: "hostGetTime h (date t') = Some th" by auto
    from Cons.prems(1) obtain tx where tx: "hostGetTime h (date x) = Some tx" by auto
    show ?thesis
    proof (cases "compareDates h x t' \<le> 0")
      case True
      with step Cons have "t = x" by simp
      then show ?thesis by auto
    next
      case False
      with step Cons have t: "t = t'" by simp
      from False tx th have lt: "th < tx" by (simp add: compareDates_def)
      have "\<forall>j<Suc i. the (hostGetTime h (date t)) < the (hostGetTime h (date ((x # xs) ! j)))"
      proof (intro allI impI)
        fix j assume "j < Suc i"
        then show "the (hostGetTime h (date t)) < the (hostGetTime h (date ((x # xs) ! j)))"
          using i(3) t lt tx th by (cases j) auto
      qed
      with i t show ?thesis by (intro exI [of _ "Suc i"]) simp
    qed
  qed
qed

text \<open>
  On valid dates the head of \<open>pendingInvoices\<close> is a pending invoice of the list that no
  pending invoice precedes in time, and the first of those in the order of the list.
\<close>

lemma pendingInvoices_head_earliest:
  assumes "pendingDatesValid h entries"
    and "pendingInvoices h entries = target # rest"
  shows "target \<in> set entries \<and> isPending target
     \<and> (\<forall>e\<in>set entries. isPending e \<longrightarrow>
           the (hostGetTime h (date target)) \<le> the (hostGetTime h (date e)))
     \<and> (\<exists>i<length (filter isPending entries). filter isPending entries ! i = target
           \<and> (\<forall>j<i. the (hostGetTime h (date target))
                        < the (hostGetTime h (date (filter isPending entries ! j)))))"
proof -
  have "target \<in> set (pendingInvoices h entries)" using assms(2) by simp
  then have a: "target \<in> set entries \<and> isPending target"
    using set_pendingInvoices [OF assms(1)] by simp
  have valid: "\<forall>e\<in>set (filter isPending entries). hostGetTime h (date e) \<noteq> None"
    using assms(1) by (simp add: pendingDatesValid_def)
  have srt: "sortBy (compareDates h) (filter isPending entries) = target # rest"
    using assms by (simp add: pendingInvoices_valid)
  from hd_sortBy_dates [OF valid srt]
  have b: "\<forall>e\<in>set entries. isPending e \<longrightarrow>
           the (hostGetTime h (date target)) \<le> the (hostGetTime h (date e))" by simp
  from a b hd_sortBy_first [OF valid srt] show ?thesis by blast
qed

section \<open>Credit notes: the sample ledger\<close>

lemmas demo_defs = demoLedger_def demoTarget_def demoInvoice_def newPayment_def
  demoHost_def demoTime_def demoInr_def codeUnits_def

lemmas cn_defs = applyCreditNote_def pendingInvoices_def sortBy_def isPending_def
  compareDates_def cnEntry_def settleByCN_def adjustByCN_def balanceInvoice_def
  formatCurrency_def orZero_def orEmpty_def Let_def

lemma demoLedger_pending:
  "pendingInvoices demoHost demoLedger
     = [demoTarget, demoInvoice ''a'' ''2024-01-20'' ''INV-10'' ''100/90-D17'' 2 1500 PENDING]"
  by (simp add: pendingInvoices_def sortBy_def isPending_def compareDates_def demo_defs)

lemma demoLedger_unique: "uniqueIds demoLedger"
  by (simp add: uniqueIds_def demoLedger_def demoInvoice_def newPayment_def)

lemma demoLedger_dates: "pendingDatesValid demoHost demoLedger"
  by (simp add: pendingDatesValid_def isPending_def demo_defs)

lemma balanceInvoice_fields:
  "balanceInvoice newId balanceAmount t =
     \<lparr>id_entry = newId, type_entry = type_entry t, date = date t,
      invoiceNo = invoiceNo t @ ''-BAL'',
      size_entry = Some (codeUnits ''Balance Forward''), pattern_entry = Some ''-'',
      quantity_entry = Some 1, unitPrice_entry = Some balanceAmount,
      invoiceAmount = Some balanceAmount, items = Some [],
      dueDate = dueDate t, paymentAmount = paymentAmount t, cnAmount = cnAmount t,
      status = Some PENDING, originalRefId = Some (id_entry t),
      notes_entry = Some (''Balance after CN adjustment on '' @ invoiceNo t)\<rparr>"
  by (cases t) (simp add: balanceInvoice_def)

text \<open>
  A credit note typed as 999.99 against an invoice of 1000: the number is the double
  nearest to 999.99, a little more than it, and the invoice is settled.
\<close>

lemma credit_note_one_cent_short:
  "map status (the (applyCreditNote demoHost ''n1'' ''n2'' demoLedger
                      (4398002530638889 / 4398046511104) ''2024-02-01'' ''goods''))
     = [Some PENDING, Some PAID, Some PAID, None, None]"
  by (simp add: cn_defs demo_defs)

section \<open>Credit notes that settle nothing\<close>

text \<open>
  C5. On an entry list without a pending invoice, a credit note of a positive amount
  returns the list as it was, followed by one new entry: a credit note numbered
  \<open>CN-ADJ\<close> that carries the amount as \<open>cnAmount\<close> and the supplied notes.
\<close>

theorem credit_note_without_pending:
  assumes "\<forall>e\<in>set entries. \<not> (type_entry e = INVOICE \<and> status e = Some PENDING)"
    and "0 < amountVal"
  shows "applyCreditNote h cnId balId entries amountVal transDate transNotes =
     Some (entries @
       [\<lparr>id_entry = cnId, type_entry = CN, date = transDate, invoiceNo = ''CN-ADJ'',
         size_entry = None, pattern_entry = None, quantity_entry = None, unitPrice_entry = None,
         invoiceAmount = None, items = None, dueDate = None, paymentAmount = None,
         cnAmount = Some amountVal, status = None, originalRefId = None,
         notes_entry = Some transNotes\<rparr>])"
proof -
  have "filter isPending entries = []"
    using assms(1) by (auto simp: filter_empty_conv isPending_def)
  then have "pendingInvoices h entries = []" by (rule pendingInvoices_none)
  then show ?thesis
    using applyCreditNote_unattached [of h entries amountVal cnId balId transDate transNotes]
    by (simp add: cnEntry_def)
qed

theorem credit_note_without_pending_witness:
  "(0::rat) < 250
   \<and> applyCreditNote demoHost ''n1'' ''n2''
        [demoInvoice ''c'' ''2024-01-05'' ''INV-2'' ''90/100'' 3 700 PAID,
         newPayment ''p'' ''2024-01-20'' 300 ''cash''] 250 ''2024-02-01'' ''goods''
     = Some ([demoInvoice ''c'' ''2024-01-05'' ''INV-2'' ''90/100'' 3 700 PAID,
              newPayment ''p'' ''2024-01-20'' 300 ''cash''] @
       [\<lparr>id_entry = ''n1'', type_entry = CN, date = ''2024-02-01'', invoiceNo = ''CN-ADJ'',
         size_entry = None, pattern_entry = None, quantity_entry = None, unitPrice_entry = None,
         invoiceAmount = None, items = None, dueDate = None, paymentAmount = None,
         cnAmount = Some 250, status = None, originalRefId = None,
         notes_entry = Some ''goods''\<rparr>])"
proof -
  have h1: "\<forall>e\<in>set [demoInvoice ''c'' ''2024-01-05'' ''INV-2'' ''90/100'' 3 700 PAID,
         newPayment ''p'' ''2024-01-20'' 300 ''cash''].
      \<not> (type_entry e = INVOICE \<and> status e = Some PENDING)"
    by (simp add: demoInvoice_def newPayment_def)
  have h2: "(0::rat) < 250" by simp
  from credit_note_without_pending [OF h1 h2, of demoHost "''n1''" "''n2''" "''2024-02-01''" "''goods''"] h2
  show ?thesis by blast
qed

text \<open>
  C10. A credit note whose amount is zero or negative changes no entry and creates no
  balance invoice, whatever invoices are pending; the list is returned with the credit
  note, carrying that amount, at its end.
\<close>

theorem credit_note_non_positive:
  assumes "amountVal \<le> 0"
  shows "applyCreditNote h cnId balId entries amountVal transDate transNotes =
     Some (entries @
       [\<lparr>id_entry = cnId, type_entry = CN, date = transDate, invoiceNo = ''CN-ADJ'',
         size_entry = None, pattern_entry = None, quantity_entry = None, unitPrice_entry = None,
         invoiceAmount = None, items = None, dueDate = None, paymentAmount = None,
         cnAmount = Some amountVal, status = None, originalRefId = None,
         notes_entry = Some transNotes\<rparr>])"
  using assms
    applyCreditNote_unattached [of h entries amountVal cnId balId transDate transNotes]
  by (simp add: cnEntry_def)

theorem credit_note_non_positive_witness:
  "(0::rat) \<le> 0
   \<and> applyCreditNote demoHost ''n1'' ''n2'' demoLedger 0 ''2024-02-01'' ''goods''
     = Some (demoLedger @
       [\<lparr>id_entry = ''n1'', type_entry = CN, date = ''2024-02-01'', invoiceNo = ''CN-ADJ'',
         size_entry = None, pattern_entry = None, quantity_entry = None, unitPrice_entry = None,
         invoiceAmount = None, items = None, dueDate = None, paymentAmount = None,
         cnAmount = Some 0, status = None, originalRefId = None,
         notes_entry = Some ''goods''\<rparr>])"
proof -
  have h: "(0::rat) \<le> 0" by simp
  from credit_note_non_positive [OF h, of demoHost "''n1''" "''n2''" demoLedger "''2024-02-01''" "''goods''"] h
  show ?thesis by blast
qed

section \<open>Credit notes against the target invoice\<close>

text \<open>
  C3 (as amended). The ledger is one of the data model: ids of their own, pending
  invoices with valid dates. The target is the head of \<open>pendingInvoices\<close>, by
  \<open>pendingInvoices_head_earliest\<close> the first of the earliest-dated pending invoices.
  When the amount is positive and smaller than the target's \<open>invoiceAmount\<close>, and the
  handler's test of the two being within 0.01 fails, the target becomes \<open>ADJUSTED\<close> with
  the adjustment written after its notes, and two entries are appended: a balance
  invoice and the credit note. The balance invoice has the new id, the target's type,
  date, due date, payment and credit-note amounts, the number of the target followed by
  \<open>-BAL\<close>, the difference that the host computes as amount and unit price, quantity 1,
  size \<open>Balance Forward\<close>, pattern \<open>-\<close>, no items, the target's id as \<open>originalRefId\<close>,
  status \<open>PENDING\<close>, and notes of its own: \<open>Balance after CN adjustment on\<close> and the
  target's number.
\<close>

theorem credit_note_partial:
  assumes "uniqueIds entries" and "pendingDatesValid h entries"
    and "pendingInvoices h entries = target # rest"
    and "0 < amountVal"
    and "amountVal < orZero (invoiceAmount target)"
    and "\<not> \<bar>hostMinus h amountVal (orZero (invoiceAmount target))\<bar> < hostCent h"
  shows "\<exists>i<length entries. entries ! i = target \<and>
     applyCreditNote h cnId balId entries amountVal transDate transNotes =
       Some (entries
          [i := target\<lparr>status := Some ADJUSTED,
                 notes_entry := Some (orEmpty (notes_entry target) @ '' [Adj by CN ''
                                        @ hostFormatINR h amountVal @ '']'')\<rparr>]
          @ [\<lparr>id_entry = balId, type_entry = INVOICE, date = date target,
               invoiceNo = invoiceNo target @ ''-BAL'',
               size_entry = Some (codeUnits ''Balance Forward''), pattern_entry = Some ''-'',
               quantity_entry = Some 1,
               unitPrice_entry = Some (hostMinus h (orZero (invoiceAmount target)) amountVal),
               invoiceAmount = Some (hostMinus h (orZero (invoiceAmount target)) amountVal),
               items = Some [],
               dueDate = dueDate target, paymentAmount = paymentAmount target,
               cnAmount = cnAmount target,
               status = Some PENDING, originalRefId = Some (id_entry target),
               notes_entry = Some (''Balance after CN adjustment on '' @ invoiceNo target)\<rparr>,
             cnEntry cnId transDate amountVal transNotes])
     \<and> length (the (applyCreditNote h cnId balId entries amountVal transDate transNotes))
         = length entries + 2"
proof -
  from applyCreditNote_target [OF assms(1-4), of cnId balId transDate transNotes]
  obtain i where i: "i < length entries" "entries ! i = target"
    and r: "applyCreditNote h cnId balId entries amountVal transDate transNotes =
        Some (entries[i := adjustByCN h amountVal target]
              @ [balanceInvoice balId (hostMinus h (orZero (invoiceAmount target)) amountVal) target,
                 cnEntry cnId transDate amountVal transNotes])"
    using assms(5,6) by auto
  have "target \<in> set (pendingInvoices h entries)" using assms(3) by simp
  then have inv: "type_entry target = INVOICE"
    using set_pendingInvoices [OF assms(2)] by (simp add: isPending_def)
  show ?thesis
    using i r inv
    by (intro exI [of _ i]) (simp add: adjustByCN_def formatCurrency_def balanceInvoice_fields)
qed

theorem credit_note_partial_witness:
  "uniqueIds demoLedger \<and> pendingDatesValid demoHost demoLedger
   \<and> pendingInvoices demoHost demoLedger
       = [demoTarget, demoInvoice ''a'' ''2024-01-20'' ''INV-10'' ''100/90-D17'' 2 1500 PENDING]
   \<and> (0::rat) < 400 \<and> 400 < orZero (invoiceAmount demoTarget)
   \<and> \<not> \<bar>hostMinus demoHost 400 (orZero (invoiceAmount demoTarget))\<bar> < hostCent demoHost
   \<and> length (the (applyCreditNote demoHost ''n1'' ''n2'' demoLedger 400
                    ''2024-02-01'' ''goods'')) = length demoLedger + 2"
proof -
  have h1: "uniqueIds demoLedger" by (rule demoLedger_unique)
  have h2: "pendingDatesValid demoHost demoLedger" by (rule demoLedger_dates)
  have h3: "pendingInvoices demoHost demoLedger
       = demoTarget # [demoInvoice ''a'' ''2024-01-20'' ''INV-10'' ''100/90-D17'' 2 1500 PENDING]"
    by (rule demoLedger_pending)
  have h4: "(0::rat) < 400" by simp
  have h5: "400 < orZero (invoiceAmount demoTarget)"
    by (simp add: demoTarget_def demoInvoice_def orZero_def)
  have h6: "\<not> \<bar>hostMinus demoHost 400 (orZero (invoiceAmount demoTarget))\<bar> < hostCent demoHost"
    by (simp add: demoTarget_def demoInvoice_def orZero_def demoHost_def)
  from credit_note_partial [OF h1 h2 h3 h4 h5 h6, of "''n1''" "''n2''" "''2024-02-01''" "''goods''"]
    h1 h2 h3 h4 h5 h6
  show ?thesis by blast
qed

text \<open>
  C3 as stated has the balance invoice copy the target's notes. On the sample ledger
  the target's notes are \<open>note\<close> and those of the balance invoice are not.
\<close>

theorem credit_note_partial_counterexample:
  "notes_entry demoTarget = Some ''note''
   \<and> applyCreditNote demoHost ''n1'' ''n2'' demoLedger 400 ''2024-02-01'' ''goods''
     = Some [demoInvoice ''a'' ''2024-01-20'' ''INV-10'' ''100/90-D17'' 2 1500 PENDING,
             demoTarget\<lparr>status := Some ADJUSTED,
                        notes_entry := Some ''note [Adj by CN Rs 400.00]''\<rparr>,
             demoInvoice ''c'' ''2024-01-05'' ''INV-2'' ''90/100'' 3 700 PAID,
             newPayment ''p'' ''2024-01-20'' 300 ''cash'',
             demoTarget\<lparr>id_entry := ''n2'', invoiceNo := ''INV-10-BAL'',
                        size_entry := Some (codeUnits ''Balance Forward''),
                        pattern_entry := Some ''-'',
                        quantity_entry := Some 1, unitPrice_entry := Some 600,
                        invoiceAmount := Some 600, items := Some [],
                        originalRefId := Some ''b'',
                        notes_entry := Some ''Balance after CN adjustment on INV-10''\<rparr>,
             cnEntry ''n1'' ''2024-02-01'' 400 ''goods'']"
  by (simp add: cn_defs demo_defs)



section \<open>Status transitions and the frame of a credit note\<close>

text \<open>
  C8. On a ledger of the data model a credit note of any amount returns a list that
  begins with the entries in their order, where every entry that is not a pending
  invoice is unchanged, and where an entry whose status differs is the target, a
  pending invoice that is now \<open>PAID\<close> or \<open>ADJUSTED\<close>.
\<close>

theorem status_changes_only_on_target:
  assumes "uniqueIds entries" and "pendingDatesValid h entries"
  shows "\<exists>r. applyCreditNote h cnId balId entries amountVal transDate transNotes = Some r
     \<and> length entries \<le> length r
     \<and> (\<forall>j<length entries. \<not> isPending (entries ! j) \<longrightarrow> r ! j = entries ! j)
     \<and> (\<forall>j<length entries. status (r ! j) \<noteq> status (entries ! j) \<longrightarrow>
           (\<exists>rest. pendingInvoices h entries = (entries ! j) # rest)
           \<and> type_entry (entries ! j) = INVOICE \<and> status (entries ! j) = Some PENDING
           \<and> (status (r ! j) = Some PAID \<or> status (r ! j) = Some ADJUSTED))"
proof (cases "pendingInvoices h entries = [] \<or> amountVal \<le> 0")
  case True
  from applyCreditNote_unattached [OF True, of cnId balId transDate transNotes]
  show ?thesis by (simp add: nth_append)
next
  case False
  then obtain target rest where p: "pendingInvoices h entries = target # rest"
    and pos: "0 < amountVal"
    by (cases "pendingInvoices h entries") auto
  from applyCreditNote_target [OF assms p pos, of cnId balId transDate transNotes]
  obtain i where i: "i < length entries" and t: "entries ! i = target"
    and r: "applyCreditNote h cnId balId entries amountVal transDate transNotes =
             Some (if \<bar>hostMinus h amountVal (orZero (invoiceAmount target))\<bar> < hostCent h
                      \<or> \<not> amountVal < orZero (invoiceAmount target)
                   then entries[i := settleByCN target]
                        @ [cnEntry cnId transDate amountVal transNotes]
                   else entries[i := adjustByCN h amountVal target]
                        @ [balanceInvoice balId
                             (hostMinus h (orZero (invoiceAmount target)) amountVal) target,
                           cnEntry cnId transDate amountVal transNotes])"
    by blast
  have "target \<in> set (pendingInvoices h entries)" using p by simp
  then have pend: "isPending target"
    using set_pendingInvoices [OF assms(2)] by simp
  obtain e' tail where r': "applyCreditNote h cnId balId entries amountVal transDate transNotes
        = Some (entries[i := e'] @ tail)"
    and e': "status e' = Some PAID \<or> status e' = Some ADJUSTED"
    using r by (cases "\<bar>hostMinus h amountVal (orZero (invoiceAmount target))\<bar> < hostCent h
                      \<or> \<not> amountVal < orZero (invoiceAmount target)")
      (auto simp: settleByCN_def adjustByCN_def)
  define r0 where "r0 = entries[i := e'] @ tail"
  have nth0: "\<And>j. j < length entries \<Longrightarrow> r0 ! j = (if j = i then e' else entries ! j)"
    by (simp add: r0_def nth_append nth_list_update)
  have A: "applyCreditNote h cnId balId entries amountVal transDate transNotes = Some r0"
    using r' by (simp add: r0_def)
  have B: "length entries \<le> length r0" by (simp add: r0_def)
  have C: "\<forall>j<length entries. \<not> isPending (entries ! j) \<longrightarrow> r0 ! j = entries ! j"
    using t pend by (auto simp: nth0)
  have D: "\<forall>j<length entries. status (r0 ! j) \<noteq> status (entries ! j) \<longrightarrow>
           (\<exists>rest. pendingInvoices h entries = (entries ! j) # rest)
           \<and> type_entry (entries ! j) = INVOICE \<and> status (entries ! j) = Some PENDING
           \<and> (status (r0 ! j) = Some PAID \<or> status (r0 ! j) = Some ADJUSTED)"
  proof (intro allI impI)
    fix j assume j: "j < length entries" "status (r0 ! j) \<noteq> status (entries ! j)"
    then have ji: "j = i" by (auto simp: nth0 split: if_splits)
    have "status (r0 ! j) = Some PAID \<or> status (r0 ! j) = Some ADJUSTED"
      using ji j(1) e' by (simp add: nth0)
    with ji t p pend
    show "(\<exists>rest. pendingInvoices h entries = (entries ! j) # rest)
           \<and> type_entry (entries ! j) = INVOICE \<and> status (entries ! j) = Some PENDING
           \<and> (status (r0 ! j) = Some PAID \<or> status (r0 ! j) = Some ADJUSTED)"
      by (simp add: isPending_def)
  qed
  from A B C D show ?thesis by blast
qed

theorem status_changes_only_on_target_witness:
  "uniqueIds demoLedger \<and> pendingDatesValid demoHost demoLedger
   \<and> (\<exists>r. applyCreditNote demoHost ''n1'' ''n2'' demoLedger 400 ''2024-02-01'' ''goods'' = Some r
     \<and> length demoLedger \<le> length r
     \<and> (\<forall>j<length demoLedger. \<not> isPending (demoLedger ! j) \<longrightarrow> r ! j = demoLedger ! j)
     \<and> (\<forall>j<length demoLedger. status (r ! j) \<noteq> status (demoLedger ! j) \<longrightarrow>
           (\<exists>rest. pendingInvoices demoHost demoLedger = (demoLedger ! j) # rest)
           \<and> type_entry (demoLedger ! j) = INVOICE \<and> status (demoLedger ! j) = Some PENDING
           \<and> (status (r ! j) = Some PAID \<or> status (r ! j) = Some ADJUSTED)))"
proof -
  have h1: "uniqueIds demoLedger" by (rule demoLedger_unique)
  have h2: "pendingDatesValid demoHost demoLedger" by (rule demoLedger_dates)
  from status_changes_only_on_target
         [OF h1 h2, of "''n1''" "''n2''" 400 "''2024-02-01''" "''goods''"] h1 h2
  show ?thesis by blast
qed

text \<open>
  C9. On a ledger of the data model and for a positive amount, the result is the list
  of the pre-existing entries in their order, followed by the new entries. Every
  pre-existing entry keeps all its fields but \<open>status\<close> and \<open>notes\<close>, and an entry that
  differs at all is the target. The new entries are the credit note alone, or the
  balance invoice and then the credit note.
\<close>

theorem credit_note_frame:
  assumes "uniqueIds entries" and "pendingDatesValid h entries" and "0 < amountVal"
  shows "\<exists>pre tail.
     applyCreditNote h cnId balId entries amountVal transDate transNotes = Some (pre @ tail)
     \<and> length pre = length entries
     \<and> (\<forall>j<length entries.
           (pre ! j)\<lparr>status := status (entries ! j), notes_entry := notes_entry (entries ! j)\<rparr>
             = entries ! j)
     \<and> (\<forall>j<length entries. pre ! j \<noteq> entries ! j \<longrightarrow>
           (\<exists>rest. pendingInvoices h entries = (entries ! j) # rest))
     \<and> (tail = [cnEntry cnId transDate amountVal transNotes]
         \<or> (\<exists>t rest. pendingInvoices h entries = t # rest
               \<and> tail = [balanceInvoice balId (hostMinus h (orZero (invoiceAmount t)) amountVal) t,
                          cnEntry cnId transDate amountVal transNotes]))"
proof (cases "pendingInvoices h entries = []")
  case True
  then have "pendingInvoices h entries = [] \<or> amountVal \<le> 0" by simp
  from applyCreditNote_unattached [OF this, of cnId balId transDate transNotes]
  show ?thesis
    by (intro exI [of _ entries] exI [of _ "[cnEntry cnId transDate amountVal transNotes]"]) simp
next
  case False
  then obtain target rest where p: "pendingInvoices h entries = target # rest"
    by (cases "pendingInvoices h entries") auto
  from applyCreditNote_target [OF assms(1,2) p assms(3), of cnId balId transDate transNotes]
  obtain i where i: "i < length entries" and t: "entries ! i = target"
    and r: "applyCreditNote h cnId balId entries amountVal transDate transNotes =
             Some (if \<bar>hostMinus h amountVal (orZero (invoiceAmount target))\<bar> < hostCent h
                      \<or> \<not> amountVal < orZero (invoiceAmount target)
                   then entries[i := settleByCN target]
                        @ [cnEntry cnId transDate amountVal transNotes]
                   else entries[i := adjustByCN h amountVal target]
                        @ [balanceInvoice balId
                             (hostMinus h (orZero (invoiceAmount target)) amountVal) target,
                           cnEntry cnId transDate amountVal transNotes])"
    by blast
  obtain e' tail where r': "applyCreditNote h cnId balId entries amountVal transDate transNotes
        = Some (entries[i := e'] @ tail)"
    and e': "e'\<lparr>status := status target, notes_entry := notes_entry target\<rparr> = target"
    and tail: "tail = [cnEntry cnId transDate amountVal transNotes]
         \<or> tail = [balanceInvoice balId (hostMinus h (orZero (invoiceAmount target)) amountVal) target,
                    cnEntry cnId transDate amountVal transNotes]"
    using r by (cases "\<bar>hostMinus h amountVal (orZero (invoiceAmount target))\<bar> < hostCent h
                      \<or> \<not> amountVal < orZero (invoiceAmount target)")
      (auto simp: settleByCN_def adjustByCN_def)
  define pre where "pre = entries[i := e']"
  have nth: "\<And>j. j < length entries \<Longrightarrow> pre ! j = (if j = i then e' else entries ! j)"
    by (simp add: pre_def nth_list_update)
  have A: "applyCreditNote h cnId balId entries amountVal transDate transNotes
        = Some (pre @ tail)"
    using r' by (simp add: pre_def)
  have B: "length pre = length entries" by (simp add: pre_def)
  have C: "\<forall>j<length entries.
           (pre ! j)\<lparr>status := status (entries ! j), notes_entry := notes_entry (entries ! j)\<rparr>
             = entries ! j"
  proof (intro allI impI)
    fix j assume "j < length entries"
    then show "(pre ! j)\<lparr>status := status (entries ! j),
                  notes_entry := notes_entry (entries ! j)\<rparr> = entries ! j"
      using e' t by (cases "j = i") (simp_all add: nth)
  qed
  have D: "\<forall>j<length entries. pre ! j \<noteq> entries ! j \<longrightarrow>
           (\<exists>rest. pendingInvoices h entries = (entries ! j) # rest)"
  proof (intro allI impI)
    fix j assume j: "j < length entries" "pre ! j \<noteq> entries ! j"
    then have "j = i" by (auto simp: nth split: if_splits)
    with p t show "\<exists>rest. pendingInvoices h entries = (entries ! j) # rest" by simp
  qed
  have E: "tail = [cnEntry cnId transDate amountVal transNotes]
         \<or> (\<exists>t rest. pendingInvoices h entries = t # rest
               \<and> tail = [balanceInvoice balId (hostMinus h (orZero (invoiceAmount t)) amountVal) t,
                          cnEntry cnId transDate amountVal transNotes])"
    using tail p by auto
  from A B C D E show ?thesis by blast
qed

theorem credit_note_frame_witness:
  "uniqueIds demoLedger \<and> pendingDatesValid demoHost demoLedger \<and> (0::rat) < 400
   \<and> (\<exists>pre tail.
     applyCreditNote demoHost ''n1'' ''n2'' demoLedger 400 ''2024-02-01'' ''goods''
       = Some (pre @ tail)
     \<and> length pre = length demoLedger
     \<and> (\<forall>j<length demoLedger.
           (pre ! j)\<lparr>status := status (demoLedger ! j),
                     notes_entry := notes_entry (demoLedger ! j)\<rparr> = demoLedger ! j)
     \<and> (\<forall>j<length demoLedger. pre ! j \<noteq> demoLedger ! j \<longrightarrow>
           (\<exists>rest. pendingInvoices demoHost demoLedger = (demoLedger ! j) # rest))
     \<and> (tail = [cnEntry ''n1'' ''2024-02-01'' 400 ''goods'']
         \<or> (\<exists>t rest. pendingInvoices demoHost demoLedger = t # rest
               \<and> tail = [balanceInvoice ''n2'' (hostMinus demoHost (orZero (invoiceAmount t)) 400) t,
                          cnEntry ''n1'' ''2024-02-01'' 400 ''goods''])))"
proof -
  have h1: "uniqueIds demoLedger" by (rule demoLedger_unique)
  have h2: "pendingDatesValid demoHost demoLedger" by (rule demoLedger_dates)
  have h3: "(0::rat) < 400" by simp
  from credit_note_frame [OF h1 h2 h3, of "''n1''" "''n2''" "''2024-02-01''" "''goods''"] h1 h2 h3
  show ?thesis by blast
qed

end
